theory Spec2Isabelle
  imports Main "HOL-Library.Word"
begin

unbundle bit_operations_syntax

section \<open>Constants and basic types of the chopper (src/protocol/chop.cc)\<close>

type_synonym byte = "8 word"

text \<open>The enumeration \<open>opcode_t\<close> is read as its unsigned 32-bit underlying value, so
  that the reserved ranges and values that are no enumerator can be written down.\<close>

type_synonym opcode_t = "32 word"

definition HEADER_LEN :: nat where "HEADER_LEN = 16"
definition TRAILER_LEN :: nat where "TRAILER_LEN = 16"
definition SECTION_LEN :: nat where "SECTION_LEN = 65535"
definition MIN_BLOCK_SIZE :: nat where "MIN_BLOCK_SIZE = HEADER_LEN + TRAILER_LEN"
definition MAX_BLOCK_SIZE :: nat where "MAX_BLOCK_SIZE = MIN_BLOCK_SIZE + SECTION_LEN * 2"
definition AES_BLOCK_LEN :: nat where "AES_BLOCK_LEN = 16"

definition op_DAT :: opcode_t where "op_DAT = 0"
definition op_FIN :: opcode_t where "op_FIN = 1"
definition op_RST :: opcode_t where "op_RST = 2"
definition op_RK1 :: opcode_t where "op_RK1 = 3"
definition op_RK2 :: opcode_t where "op_RK2 = 4"
definition op_RK3 :: opcode_t where "op_RK3 = 5"
definition op_RESERVED0 :: opcode_t where "op_RESERVED0 = 6"
definition op_STEG0 :: opcode_t where "op_STEG0 = 128"
definition op_LAST :: opcode_t where "op_LAST = 255"

text \<open>\<open>log_abort\<close> ends the process; \<open>log_assert\<close> calls it when its condition is false,
  and the wrappers in crypt.cc call it when libcrypto reports a failure. A call through
  a null pointer ends the process as well.\<close>

datatype fatal = Assertion_failure | Crypto_abort | Log_abort | Null_dereference

section \<open>Block cipher wrappers (src/crypt.cc)\<close>

text \<open>The libcrypto calls are external. A keyed ECB context is the function
  \<open>EVP_EncryptUpdate\<close> (or \<open>EVP_DecryptUpdate\<close>) computes on one input, \<open>None\<close> when the
  call reports failure.\<close>

type_synonym ecb_encryptor = "byte list \<Rightarrow> byte list option"
type_synonym ecb_decryptor = "byte list \<Rightarrow> byte list option"

definition ecb_encrypt :: "ecb_encryptor \<Rightarrow> byte list \<Rightarrow> fatal + byte list" where
  "ecb_encrypt ctx inp =
     (case ctx (take AES_BLOCK_LEN inp) of
        None \<Rightarrow> Inl Crypto_abort
      | Some out \<Rightarrow> if length out \<noteq> AES_BLOCK_LEN then Inl Crypto_abort else Inr out)"

definition ecb_decrypt :: "ecb_decryptor \<Rightarrow> byte list \<Rightarrow> fatal + byte list" where
  "ecb_decrypt ctx inp =
     (case ctx (take AES_BLOCK_LEN inp) of
        None \<Rightarrow> Inl Crypto_abort
      | Some out \<Rightarrow> if length out \<noteq> AES_BLOCK_LEN then Inl Crypto_abort else Inr out)"

section \<open>The block header\<close>

record block_header =
  clear :: "byte list"
  ciphr :: "byte list"

definition opcode_reserved :: "opcode_t \<Rightarrow> bool" where
  "opcode_reserved f \<longleftrightarrow> f > op_LAST \<or> (f \<ge> op_RESERVED0 \<and> f < op_STEG0)"

text \<open>The sixteen cleartext bytes the encoding constructor lays out.\<close>

definition header_bytes :: "32 word \<Rightarrow> 16 word \<Rightarrow> 16 word \<Rightarrow> opcode_t \<Rightarrow> byte list" where
  "header_bytes s d p f =
     [ucast (drop_bit 24 s AND 0xFF), ucast (drop_bit 16 s AND 0xFF),
      ucast (drop_bit 8 s AND 0xFF), ucast (s AND 0xFF),
      ucast (drop_bit 8 d AND 0xFF), ucast (d AND 0xFF),
      ucast (drop_bit 8 p AND 0xFF), ucast (p AND 0xFF),
      ucast f] @ replicate 7 0"

text \<open>\<open>block_header(s, d, p, f, ec)\<close>\<close>

definition block_header_enc ::
  "32 word \<Rightarrow> 16 word \<Rightarrow> 16 word \<Rightarrow> opcode_t \<Rightarrow> ecb_encryptor \<Rightarrow> fatal + block_header" where
  "block_header_enc s d p f ec =
     (if opcode_reserved f
      then Inr \<lparr>clear = replicate 16 0xFF, ciphr = replicate 16 0xFF\<rparr>
      else (case ecb_encrypt ec (header_bytes s d p f) of
              Inl e \<Rightarrow> Inl e
            | Inr c \<Rightarrow> Inr \<lparr>clear = header_bytes s d p f, ciphr = c\<rparr>))"

text \<open>\<open>block_header(buf, dc)\<close>: \<open>evbuffer_copyout\<close> copies at most sixteen bytes and
  leaves the buffer as it is.\<close>

definition block_header_dec :: "byte list \<Rightarrow> ecb_decryptor \<Rightarrow> fatal + block_header" where
  "block_header_dec buf dc =
     (if length (take 16 buf) \<noteq> 16
      then Inr \<lparr>clear = replicate 16 0xFF, ciphr = replicate 16 0xFF\<rparr>
      else (case ecb_decrypt dc (take 16 buf) of
              Inl e \<Rightarrow> Inl e
            | Inr c \<Rightarrow> Inr \<lparr>clear = c, ciphr = take 16 buf\<rparr>))"

definition seqno :: "block_header \<Rightarrow> 32 word" where
  "seqno h = push_bit 24 (ucast (clear h ! 0)) OR push_bit 16 (ucast (clear h ! 1))
             OR push_bit 8 (ucast (clear h ! 2)) OR ucast (clear h ! 3)"

definition dlen :: "block_header \<Rightarrow> nat" where
  "dlen h = unat (push_bit 8 (ucast (clear h ! 4)) OR ucast (clear h ! 5) :: 32 word)"

definition plen :: "block_header \<Rightarrow> nat" where
  "plen h = unat (push_bit 8 (ucast (clear h ! 6)) OR ucast (clear h ! 7) :: 32 word)"

definition total_len :: "block_header \<Rightarrow> nat" where
  "total_len h = HEADER_LEN + TRAILER_LEN + dlen h + plen h"

definition opcode :: "block_header \<Rightarrow> opcode_t" where
  "opcode h = ucast (clear h ! 8)"

text \<open>\<open>valid(uint64_t window)\<close>: the subtraction is done in 64 bits and its result is
  cut to 32 bits by the assignment to \<open>delta\<close>.\<close>

definition valid :: "block_header \<Rightarrow> 64 word \<Rightarrow> bool" where
  "valid h window =
     (let ck0 = clear h ! 9 OR clear h ! 10 OR clear h ! 11 OR clear h ! 12
                OR clear h ! 13 OR clear h ! 14 OR clear h ! 15;
          delta = (ucast ((ucast (seqno h) :: 64 word) - window) :: 32 word);
          ck = ck0 OR (if delta AND NOT 0xFF \<noteq> 0 then 1 else 0)
      in ck = 0)"

definition nonce :: "block_header \<Rightarrow> byte list" where
  "nonce h = ciphr h"

definition cleartext :: "block_header \<Rightarrow> byte list" where
  "cleartext h = clear h"

section \<open>The reassembly queue\<close>

text \<open>A queue element holds a received block exactly when its data pointer is non-null;
  the null pointer is \<open>None\<close>.\<close>

record reassembly_elt =
  data :: "byte list option"
  op :: opcode_t

record reassembly_queue =
  cbuf :: "8 word \<Rightarrow> reassembly_elt"
  next_to_process :: "32 word"

definition empty_elt :: reassembly_elt where
  "empty_elt = \<lparr>data = None, op = op_DAT\<rparr>"

definition reassembly_queue_new :: reassembly_queue where
  "reassembly_queue_new = \<lparr>cbuf = (\<lambda>i. \<lparr>data = None, op = 0\<rparr>), next_to_process = 0\<rparr>"

definition window :: "reassembly_queue \<Rightarrow> 32 word" where
  "window q = next_to_process q"

definition remove_next :: "reassembly_queue \<Rightarrow> reassembly_elt \<times> reassembly_queue" where
  "remove_next q =
     (let rv = \<lparr>data = None, op = op_DAT\<rparr>;
          front = (ucast (next_to_process q AND 0xFF) :: 8 word)
      in if data (cbuf q front) \<noteq> None
         then (cbuf q front,
               q\<lparr>cbuf := (cbuf q)(front := \<lparr>data = None, op = op_DAT\<rparr>),
                 next_to_process := next_to_process q + 1\<rparr>)
         else (rv, q))"

text \<open>\<open>insert\<close> returns its result, the queue, and the buffers it has handed to
  \<open>evbuffer_free\<close>.\<close>

definition insert_blk ::
  "reassembly_queue \<Rightarrow> 32 word \<Rightarrow> opcode_t \<Rightarrow> byte list
     \<Rightarrow> bool \<times> reassembly_queue \<times> byte list list" where
  "insert_blk q sq f d =
     (if sq - window q > 255 then (False, q, [d])
      else let front = (ucast (next_to_process q AND 0xFF) :: 8 word);
               pos = (ucast ((ucast front :: 32 word) + (sq - window q)) :: 8 word)
           in if data (cbuf q pos) \<noteq> None then (False, q, [d])
              else (True, q\<lparr>cbuf := (cbuf q)(pos := \<lparr>data = Some d, op = f\<rparr>)\<rparr>, []))"

text \<open>\<open>reset\<close> asserts that every slot is empty.\<close>

definition reset :: "reassembly_queue \<Rightarrow> fatal + reassembly_queue" where
  "reset q =
     (if list_ex (\<lambda>i. data (cbuf q (of_nat i)) \<noteq> None) [0..<256] then Inl Assertion_failure
      else Inr (q\<lparr>next_to_process := 0\<rparr>))"

text \<open>A number of calls of \<open>remove_next\<close>, one after the other.\<close>

fun remove_many :: "nat \<Rightarrow> reassembly_queue \<Rightarrow> reassembly_elt list \<times> reassembly_queue" where
  "remove_many 0 q = ([], q)"
| "remove_many (Suc n) q =
     (case remove_next q of (e, q') \<Rightarrow>
        (case remove_many n q' of (es, q'') \<Rightarrow> (e # es, q'')))"

section \<open>Authenticated encryption wrappers (src/crypt.cc)\<close>

definition INT_MAX :: nat where "INT_MAX = 2147483647"

text \<open>A keyed GCM encryption context is the function libcrypto computes from nonce,
  associated data and plaintext: the ciphertext \<open>EVP_EncryptUpdate\<close> writes and the tag
  the \<open>EVP_CTRL_GCM_GET_TAG\<close> request (for sixteen bytes) writes, \<open>None\<close> when one of
  the calls reports failure. The decryption context takes nonce, associated data,
  ciphertext and tag and yields the plaintext, \<open>None\<close> when a call fails or the tag does
  not verify.\<close>

type_synonym gcm_encryptor = "byte list \<Rightarrow> byte list \<Rightarrow> byte list \<Rightarrow> (byte list \<times> byte list) option"
type_synonym gcm_decryptor = "byte list \<Rightarrow> byte list \<Rightarrow> byte list \<Rightarrow> byte list \<Rightarrow> byte list option"

text \<open>\<open>gcm_encryptor_impl::encrypt\<close>: the output is the ciphertext followed by the tag.\<close>

definition gcm_encrypt :: "gcm_encryptor \<Rightarrow> byte list \<Rightarrow> byte list \<Rightarrow> fatal + byte list" where
  "gcm_encrypt ctx inp nce =
     (if \<not> length inp \<le> INT_MAX then Inl Assertion_failure
      else (case ctx nce [] inp of
              None \<Rightarrow> Inl Crypto_abort
            | Some (ct, tag) \<Rightarrow>
                if length ct \<noteq> length inp \<or> length tag \<noteq> 16 then Inl Crypto_abort
                else Inr (ct @ tag)))"

text \<open>\<open>gcm_decryptor_impl::decrypt\<close>: the last sixteen input bytes are the tag; the
  result is \<open>None\<close> for the return value -1.\<close>

definition gcm_decrypt ::
  "gcm_decryptor \<Rightarrow> byte list \<Rightarrow> byte list \<Rightarrow> fatal + byte list option" where
  "gcm_decrypt ctx inp nce =
     (if \<not> length inp \<le> INT_MAX then Inl Assertion_failure
      else (case ctx nce [] (take (length inp - 16) inp) (drop (length inp - 16) inp) of
              None \<Rightarrow> Inr None
            | Some pt \<Rightarrow> if length pt \<noteq> length inp - 16 then Inr None else Inr (Some pt)))"

section \<open>Steganography modules, connections and circuits\<close>

text \<open>A steganography module is external. It is taken as a state machine: its state, the
  room it reports in each state, and what \<open>transmit\<close> does in a state with a block
  (\<open>None\<close>: transmission fails; otherwise the next state). Hints a module gives to its
  connection while it transmits are outside the model.\<close>

record steg_t =
  steg_state :: nat
  room_of :: "nat \<Rightarrow> nat"
  transmit_of :: "nat \<Rightarrow> byte list \<Rightarrow> nat option"

definition transmit_room :: "steg_t \<Rightarrow> nat" where
  "transmit_room st = room_of st (steg_state st)"

definition transmit :: "steg_t \<Rightarrow> byte list \<Rightarrow> steg_t option" where
  "transmit st block =
     (case transmit_of st (steg_state st) block of
        None \<Rightarrow> None
      | Some n \<Rightarrow> Some (st\<lparr>steg_state := n\<rparr>))"

datatype listen_mode = LSN_SIMPLE_CLIENT | LSN_SIMPLE_SERVER | LSN_SOCKS_CLIENT

text \<open>A connection attached to the circuit (its \<open>upstream\<close> pointer is the circuit).
  \<open>must_send_pending\<close> is \<open>must_send_p()\<close>: the timer exists and is pending.\<close>

record chop_conn_t =
  steg :: "steg_t option"
  recv_pending :: "byte list"
  sent_handshake :: bool
  no_more_transmissions :: bool
  must_send_pending :: bool

text \<open>What leaves the circuit: the bytes given to a module's \<open>transmit\<close>, the calls into
  the connection framework (connections.cc), and, at the point where \<open>send_targeted\<close>
  has succeeded, a record of the block sent on a connection with its header object.\<close>

datatype event =
    Steg_transmit nat "byte list"
  | Block_sent nat block_header "byte list"
  | Circuit_recv_eof
  | Circuit_arm_flush_timer
  | Circuit_disarm_flush_timer
  | Circuit_arm_axe_timer
  | Circuit_disarm_axe_timer
  | Circuit_reopen_downstreams
  | Conn_send_eof nat
  | Conn_do_flush nat

text \<open>The circuit with the connections it refers to. \<open>xmit_pending\<close> is the input side
  of \<open>up_buffer\<close>, \<open>up_output\<close> its output side. \<open>evbuffer_ok\<close> says whether libevent's
  buffer operations (allocation, reservation, commit, transfer) succeed.\<close>

record chop_circuit_t =
  recv_queue :: reassembly_queue
  downstreams :: "nat list"
  conns :: "nat \<Rightarrow> chop_conn_t"
  send_crypt :: gcm_encryptor
  send_hdr_crypt :: ecb_encryptor
  recv_crypt :: gcm_decryptor
  recv_hdr_crypt :: ecb_decryptor
  mode :: listen_mode
  circuit_id :: "32 word"
  send_seq :: "32 word"
  dead_cycles :: "32 word"
  received_fin :: bool
  sent_fin :: bool
  upstream_eof :: bool
  xmit_pending :: "byte list"
  up_output :: "byte list"
  evbuffer_ok :: bool
  trace :: "event list"

text \<open>Modelled from the spec: the allocator behind \<open>new chop_circuit_t\<close> (util.cc) is
  not among the sources and the constructor body is empty; the spec has \<open>send_seq\<close>
  start at 0 and the flags clear, which is what a zero-filling allocator gives. The
  circuit's id \<open>cid\<close> is the one \<open>circuit_create\<close> draws for a client circuit (random and
  not zero), and the one \<open>recv_handshake\<close> stores in a server circuit it has created.\<close>

definition chop_circuit_new ::
  "listen_mode \<Rightarrow> 32 word \<Rightarrow> gcm_encryptor \<Rightarrow> ecb_encryptor \<Rightarrow> gcm_decryptor
     \<Rightarrow> ecb_decryptor \<Rightarrow> chop_circuit_t" where
  "chop_circuit_new m cid se sh re rh =
     \<lparr>recv_queue = reassembly_queue_new, downstreams = [],
      conns = (\<lambda>c. \<lparr>steg = None, recv_pending = [], sent_handshake = False,
                     no_more_transmissions = False, must_send_pending = False\<rparr>),
      send_crypt = se, send_hdr_crypt = sh, recv_crypt = re, recv_hdr_crypt = rh,
      mode = m, circuit_id = cid, send_seq = 0, dead_cycles = 0,
      received_fin = False, sent_fin = False, upstream_eof = False,
      xmit_pending = [], up_output = [], evbuffer_ok = True, trace = []\<rparr>"

definition add_event :: "event \<Rightarrow> chop_circuit_t \<Rightarrow> chop_circuit_t" where
  "add_event e s = s\<lparr>trace := trace s @ [e]\<rparr>"

text \<open>\<open>size_t\<close> values are natural numbers below \<open>2 ^ 64\<close>; subtraction wraps.\<close>

definition size_sub :: "nat \<Rightarrow> nat \<Rightarrow> nat" where
  "size_sub a b = nat ((int a - int b) mod 2 ^ 64)"

section \<open>The send scheduler\<close>

definition clamp_room :: "nat \<Rightarrow> nat" where
  "clamp_room r =
     (let room = (if r \<le> MIN_BLOCK_SIZE then 0 else r)
      in if room > MAX_BLOCK_SIZE then MAX_BLOCK_SIZE else room)"

text \<open>The loop of \<open>pick_connection\<close> over the downstreams, on the four variables
  \<open>maxbelow\<close>, \<open>minabove\<close>, \<open>targbelow\<close>, \<open>targabove\<close>.\<close>

fun pick_loop ::
  "(nat \<Rightarrow> chop_conn_t) \<Rightarrow> nat \<Rightarrow> nat list \<Rightarrow> nat \<times> nat \<times> nat option \<times> nat option
     \<Rightarrow> nat \<times> nat \<times> nat option \<times> nat option" where
  "pick_loop cs desired [] acc = acc"
| "pick_loop cs desired (c # rest) (maxbelow, minabove, targbelow, targabove) =
     (case steg (cs c) of
        None \<Rightarrow> pick_loop cs desired rest (maxbelow, minabove, targbelow, targabove)
      | Some st \<Rightarrow>
          (let room = clamp_room (transmit_room st)
           in if room \<ge> desired
              then (if room < minabove
                    then pick_loop cs desired rest (maxbelow, room, targbelow, Some c)
                    else pick_loop cs desired rest (maxbelow, minabove, targbelow, targabove))
              else (if room > maxbelow
                    then pick_loop cs desired rest (room, minabove, Some c, targabove)
                    else pick_loop cs desired rest (maxbelow, minabove, targbelow, targabove))))"

text \<open>\<open>pick_connection(desired, &blocksize)\<close>: the connection chosen (\<open>None\<close> for the null
  pointer) and the value stored in \<open>*blocksize\<close>.\<close>

definition pick_connection :: "chop_circuit_t \<Rightarrow> nat \<Rightarrow> nat option \<times> nat" where
  "pick_connection s desired0 =
     (let desired = (if desired0 > SECTION_LEN then SECTION_LEN else desired0) + MIN_BLOCK_SIZE
      in case pick_loop (conns s) desired (downstreams s) (0, MAX_BLOCK_SIZE + 1, None, None) of
           (maxbelow, minabove, targbelow, targabove) \<Rightarrow>
             (case targabove of
                Some c \<Rightarrow> (Some c, desired)
              | None \<Rightarrow> (targbelow, maxbelow)))"

section \<open>Sending a block\<close>

text \<open>The four bytes of the circuit id as \<open>memcpy\<close> lays them out on a little-endian
  host.\<close>

definition handshake_bytes :: "32 word \<Rightarrow> byte list" where
  "handshake_bytes cid =
     [ucast cid, ucast (drop_bit 8 cid), ucast (drop_bit 16 cid), ucast (drop_bit 24 cid)]"

text \<open>\<open>chop_conn_t::send(block)\<close>\<close>

definition conn_send :: "chop_circuit_t \<Rightarrow> nat \<Rightarrow> byte list \<Rightarrow> fatal + (int \<times> chop_circuit_t)" where
  "conn_send s c block =
     (let cn = conns s c;
          hs = (\<not> sent_handshake cn \<and> mode s \<noteq> LSN_SIMPLE_SERVER)
      in if hs \<and> circuit_id s = 0 then Inl Log_abort
         else if hs \<and> \<not> evbuffer_ok s then Inr (-1, s)
         else (let wire = (if hs then handshake_bytes (circuit_id s) @ block else block)
               in case steg cn of
                    None \<Rightarrow> Inl Null_dereference
                  | Some st \<Rightarrow>
                      (case transmit st wire of
                         None \<Rightarrow> Inr (-1, s)
                       | Some st' \<Rightarrow>
                           Inr (0, add_event (Steg_transmit c wire)
                                     (s\<lparr>conns := (conns s)
                                          (c := cn\<lparr>steg := Some st', sent_handshake := True,
                                                   must_send_pending := False\<rparr>)\<rparr>)))))"

text \<open>The payload argument of \<open>send_targeted\<close> and \<open>send_special\<close> is either the null
  pointer or the circuit's pending upstream input.\<close>

datatype payload_ref = Null_payload | Upstream_input

text \<open>\<open>send_targeted(conn, d, p, f, payload)\<close>\<close>

definition send_targeted5 ::
  "chop_circuit_t \<Rightarrow> nat \<Rightarrow> nat \<Rightarrow> nat \<Rightarrow> opcode_t \<Rightarrow> payload_ref
     \<Rightarrow> fatal + (int \<times> chop_circuit_t)" where
  "send_targeted5 s c d p f payload =
     (if payload = Null_payload \<and> d \<noteq> 0 then Inl Assertion_failure
      else if \<not> d \<le> SECTION_LEN then Inl Assertion_failure
      else if \<not> p \<le> SECTION_LEN then Inl Assertion_failure
      else if \<not> evbuffer_ok s then Inr (-1, s)
      else (case block_header_enc (send_seq s) (of_nat d) (of_nat p) f (send_hdr_crypt s) of
              Inl e \<Rightarrow> Inl e
            | Inr hdr \<Rightarrow>
                if \<not> valid hdr (ucast (send_seq s)) then Inl Assertion_failure
                else if payload = Upstream_input \<and> length (take d (xmit_pending s)) \<noteq> d
                then Inr (-1, s)
                else (let encodebuf =
                            (case payload of
                               Null_payload \<Rightarrow> []
                             | Upstream_input \<Rightarrow> take d (xmit_pending s)) @ replicate p 0
                      in case gcm_encrypt (send_crypt s) encodebuf (nonce hdr) of
                           Inl e \<Rightarrow> Inl e
                         | Inr body \<Rightarrow>
                             (let block = take HEADER_LEN (nonce hdr) @ body
                              in case conn_send s c block of
                                   Inl e \<Rightarrow> Inl e
                                 | Inr (rc, s1) \<Rightarrow>
                                     if rc \<noteq> 0 then Inr (-1, s1)
                                     else (let s2 = (case payload of
                                                       Null_payload \<Rightarrow> s1
                                                     | Upstream_input \<Rightarrow>
                                                         s1\<lparr>xmit_pending := drop d (xmit_pending s1)\<rparr>);
                                               s3 = add_event (Block_sent c hdr block)
                                                      (s2\<lparr>send_seq := send_seq s2 + 1\<rparr>)
                                           in Inr (0, if f = op_FIN then s3\<lparr>sent_fin := True\<rparr>
                                                      else s3))))))"

text \<open>\<open>send_targeted(conn, blocksize)\<close>\<close>

definition send_targeted2 ::
  "chop_circuit_t \<Rightarrow> nat \<Rightarrow> nat \<Rightarrow> fatal + (int \<times> chop_circuit_t)" where
  "send_targeted2 s c blocksize =
     (if \<not> (blocksize \<ge> MIN_BLOCK_SIZE \<and> blocksize \<le> MAX_BLOCK_SIZE) then Inl Assertion_failure
      else (let avail0 = length (xmit_pending s);
                avail = (if avail0 > SECTION_LEN then SECTION_LEN else avail0);
                f = (if avail0 > SECTION_LEN then op_DAT
                     else if upstream_eof s \<and> \<not> sent_fin s then op_FIN else op_DAT)
            in send_targeted5 s c avail (size_sub (size_sub blocksize MIN_BLOCK_SIZE) avail) f
                 Upstream_input))"

text \<open>\<open>send_targeted(conn)\<close>\<close>

definition send_targeted1 :: "chop_circuit_t \<Rightarrow> nat \<Rightarrow> fatal + (int \<times> chop_circuit_t)" where
  "send_targeted1 s c =
     (let avail0 = length (xmit_pending s);
          avail = (if avail0 > SECTION_LEN then SECTION_LEN else avail0) + MIN_BLOCK_SIZE
      in case steg (conns s c) of
           None \<Rightarrow> Inl Null_dereference
         | Some st \<Rightarrow>
             (let room = transmit_room st
              in if room < MIN_BLOCK_SIZE then Inr (-1, s)
                 else send_targeted2 s c (if room < avail then room else avail)))"

text \<open>\<open>send_special(f, payload)\<close>\<close>

definition send_special ::
  "chop_circuit_t \<Rightarrow> opcode_t \<Rightarrow> payload_ref \<Rightarrow> fatal + (int \<times> chop_circuit_t)" where
  "send_special s f payload =
     (let d = (case payload of Null_payload \<Rightarrow> 0 | Upstream_input \<Rightarrow> length (xmit_pending s))
      in if \<not> d \<le> SECTION_LEN then Inl Assertion_failure
         else (case pick_connection s d of
                 (None, blocksize) \<Rightarrow> Inr (-1, s)
               | (Some c, blocksize) \<Rightarrow>
                   if size_sub blocksize MIN_BLOCK_SIZE < d then Inr (-1, s)
                   else send_targeted5 s c d (size_sub (size_sub blocksize MIN_BLOCK_SIZE) d) f
                          payload))"

section \<open>The invariant of the scheduler's loop\<close>

text \<open>\<open>room_in cs c r\<close>: connection \<open>c\<close> has a module and offers the clamped room \<open>r\<close>.
  \<open>pick_inv\<close> relates the four loop variables to the connections seen so far.\<close>

definition room_in :: "(nat \<Rightarrow> chop_conn_t) \<Rightarrow> nat \<Rightarrow> nat \<Rightarrow> bool" where
  "room_in cs c r \<longleftrightarrow> (\<exists>st. steg (cs c) = Some st \<and> clamp_room (transmit_room st) = r)"

definition pick_inv ::
  "(nat \<Rightarrow> chop_conn_t) \<Rightarrow> nat \<Rightarrow> nat set \<Rightarrow> nat \<times> nat \<times> nat option \<times> nat option \<Rightarrow> bool" where
  "pick_inv cs desired A acc =
     (case acc of (maxbelow, minabove, targbelow, targabove) \<Rightarrow>
        (case targabove of
           None \<Rightarrow> minabove = MAX_BLOCK_SIZE + 1 \<and> (\<forall>c\<in>A. \<forall>r. room_in cs c r \<longrightarrow> r < desired)
         | Some c \<Rightarrow> c \<in> A \<and> room_in cs c minabove \<and> desired \<le> minabove \<and>
                     (\<forall>c'\<in>A. \<forall>r. room_in cs c' r \<and> desired \<le> r \<longrightarrow> minabove \<le> r)) \<and>
        (case targbelow of
           None \<Rightarrow> maxbelow = 0 \<and> (\<forall>c\<in>A. \<forall>r. room_in cs c r \<and> r < desired \<longrightarrow> r = 0)
         | Some c \<Rightarrow> c \<in> A \<and> room_in cs c maxbelow \<and> 0 < maxbelow \<and> maxbelow < desired \<and>
                     (\<forall>c'\<in>A. \<forall>r. room_in cs c' r \<and> r < desired \<longrightarrow> r \<le> maxbelow)))"

section \<open>A small concrete circuit\<close>

text \<open>Stand-ins for the external parts, used to run the definitions on concrete inputs:
  byte-wise ciphers in place of AES, a module that always has the same room and always
  transmits, and a server-side circuit with three downstreams (rooms 40 and 100, and one
  connection without a module) and five pending upstream bytes.\<close>

definition toy_ecb :: "byte list \<Rightarrow> byte list option" where
  "toy_ecb x = Some (map (\<lambda>b. b XOR 0x5A) x)"

definition toy_gcm_enc :: gcm_encryptor where
  "toy_gcm_enc nce aad pt = Some (map (\<lambda>b. b XOR 0x33) pt, take 16 nce)"

definition toy_gcm_dec :: gcm_decryptor where
  "toy_gcm_dec nce aad ct tag =
     (if tag = take 16 nce then Some (map (\<lambda>b. b XOR 0x33) ct) else None)"

definition toy_steg :: "nat \<Rightarrow> steg_t" where
  "toy_steg r = \<lparr>steg_state = 0, room_of = (\<lambda>n. r), transmit_of = (\<lambda>n b. Some (Suc n))\<rparr>"

definition toy_conn :: "steg_t option \<Rightarrow> chop_conn_t" where
  "toy_conn st = \<lparr>steg = st, recv_pending = [], sent_handshake = False,
                  no_more_transmissions = False, must_send_pending = False\<rparr>"

definition toy_circuit :: chop_circuit_t where
  "toy_circuit =
     (chop_circuit_new LSN_SIMPLE_SERVER 1 toy_gcm_enc toy_ecb toy_gcm_dec toy_ecb)
       \<lparr>downstreams := [0, 1, 2],
        conns := (\<lambda>c. if c = 0 then toy_conn (Some (toy_steg 40))
                       else if c = 1 then toy_conn (Some (toy_steg 100))
                       else toy_conn None),
        xmit_pending := [1, 2, 3, 4, 5]\<rparr>"

definition toy_queue :: reassembly_queue where
  "toy_queue =
     \<lparr>cbuf = (\<lambda>i. if i = 255 then \<lparr>data = Some [1], op = op_DAT\<rparr>
                   else if i = 0 then \<lparr>data = Some [2, 3], op = op_FIN\<rparr>
                   else \<lparr>data = None, op = op_DAT\<rparr>),
      next_to_process = 0xFFFFFFFF\<rparr>"

lemmas toy_defs = toy_circuit_def toy_conn_def toy_steg_def toy_ecb_def toy_gcm_enc_def
  toy_gcm_dec_def chop_circuit_new_def reassembly_queue_new_def

lemmas const_defs = SECTION_LEN_def MIN_BLOCK_SIZE_def MAX_BLOCK_SIZE_def HEADER_LEN_def
  TRAILER_LEN_def AES_BLOCK_LEN_def INT_MAX_def

section \<open>Word arithmetic used by the header and the queue\<close>

lemma ucast_diff_down: "(ucast ((a :: 64 word) - b) :: 32 word) = ucast a - ucast b"
proof -
  have d: "(4294967296::int) dvd 18446744073709551616" by simp
  show ?thesis
    by (simp add: unsigned_ucast_eq word_eq_iff_unsigned[where ?'a = int] uint_word_ariths
        take_bit_eq_mod mod_diff_eq mod_mod_cancel[OF d])
qed

lemma hi_bits_zero: "(x :: 32 word) AND NOT (mask 8) = 0 \<longleftrightarrow> unat x \<le> 255"
proof -
  have "x AND NOT (mask 8) = 0 \<longleftrightarrow> take_bit 8 x = x"
    by (auto simp: bit_eq_iff bit_simps)
  also have "\<dots> \<longleftrightarrow> x < 2 ^ 8"
    by (simp add: take_bit_eq_mask mask_eq_iff_w2p word_size)
  also have "\<dots> \<longleftrightarrow> unat x \<le> 255"
    by (auto simp: word_less_nat_alt)
  finally show ?thesis .
qed

lemma u32_hi_zero: "(x :: 32 word) AND - 256 = 0 \<longleftrightarrow> unat x \<le> 255"
  using hi_bits_zero [of x] by (simp add: mask_eq_exp_minus_1)

lemma front_eq: "(ucast (n AND 0xFF :: 32 word) :: 8 word) = ucast n"
proof -
  have m: "(0xFF :: 32 word) = mask 8" by (simp add: mask_eq_exp_minus_1)
  show ?thesis unfolding m by (auto simp: bit_eq_iff bit_simps)
qed

lemma ucast_add8: "(ucast ((a::32 word) + b) :: 8 word) = ucast a + ucast b"
proof -
  have d: "(256::int) dvd 4294967296" by simp
  show ?thesis
    by (simp add: unsigned_ucast_eq word_eq_iff_unsigned[where ?'a = int] uint_word_ariths
        take_bit_eq_mod mod_add_eq mod_mod_cancel[OF d])
qed

lemma ucast_sub8: "(ucast ((a::32 word) - b) :: 8 word) = ucast a - ucast b"
proof -
  have d: "(256::int) dvd 4294967296" by simp
  show ?thesis
    by (simp add: unsigned_ucast_eq word_eq_iff_unsigned[where ?'a = int] uint_word_ariths
        take_bit_eq_mod mod_diff_eq mod_mod_cancel[OF d])
qed

lemma slot_of_seq:
  "(ucast ((ucast (ucast (n AND 0xFF :: 32 word) :: 8 word) :: 32 word) + (s - n)) :: 8 word)
     = ucast s"
  by (simp add: ucast_add8 ucast_sub8 front_eq ucast_down_ucast_id is_down del: and_numerals)

lemma unat_ucast8: "unat (ucast (s :: 32 word) :: 8 word) = unat s mod 256"
  by (simp add: unsigned_ucast_eq take_bit_eq_mod)

lemma gt255: "(x :: 32 word) > 255 \<longleftrightarrow> \<not> unat x \<le> 255"
  by (auto simp: word_less_nat_alt)

section \<open>Header validity\<close>

text \<open>C2. For any header and any 32-bit window value \<open>w\<close> (widened to the 64-bit
  parameter as the caller does), \<open>valid\<close> answers true exactly when the seven check
  bytes 9 to 15 of the cleartext are all zero and the unsigned 32-bit difference between
  the sequence number and \<open>w\<close> is at most 255.\<close>

theorem valid_iff_check_zero_and_in_window:
  "valid h (ucast (w :: 32 word)) \<longleftrightarrow>
     (clear h ! 9 = 0 \<and> clear h ! 10 = 0 \<and> clear h ! 11 = 0 \<and> clear h ! 12 = 0 \<and>
      clear h ! 13 = 0 \<and> clear h ! 14 = 0 \<and> clear h ! 15 = 0) \<and>
     unat (seqno h - w) \<le> 255"
proof -
  have c: "(ucast ((ucast (seqno h) :: 64 word) - ucast w) :: 32 word) = seqno h - w"
    by (simp add: ucast_diff_down ucast_down_ucast_id is_down)
  show ?thesis
    unfolding valid_def Let_def c
    by (auto simp: or_eq_0_iff u32_hi_zero)
qed


theorem valid_iff_witness:
  "valid \<lparr>clear = [0, 0, 1, 5, 0, 3, 0, 2, 0, 0, 0, 0, 0, 0, 0, 0], ciphr = replicate 16 0\<rparr>
     (ucast (6 :: 32 word))
   \<and> \<not> valid \<lparr>clear = [0, 0, 1, 5, 0, 3, 0, 2, 0, 0, 0, 0, 0, 0, 0, 0], ciphr = replicate 16 0\<rparr>
         (ucast (5 :: 32 word))
   \<and> \<not> valid \<lparr>clear = [0, 0, 1, 5, 0, 3, 0, 2, 0, 0, 0, 0, 1, 0, 0, 0], ciphr = replicate 16 0\<rparr>
         (ucast (6 :: 32 word))"
  using valid_iff_check_zero_and_in_window
          [of "\<lparr>clear = [0, 0, 1, 5, 0, 3, 0, 2, 0, 0, 0, 0, 0, 0, 0, 0], ciphr = replicate 16 0\<rparr>" 6]
        valid_iff_check_zero_and_in_window
          [of "\<lparr>clear = [0, 0, 1, 5, 0, 3, 0, 2, 0, 0, 0, 0, 0, 0, 0, 0], ciphr = replicate 16 0\<rparr>" 5]
        valid_iff_check_zero_and_in_window
          [of "\<lparr>clear = [0, 0, 1, 5, 0, 3, 0, 2, 0, 0, 0, 0, 1, 0, 0, 0], ciphr = replicate 16 0\<rparr>" 6]
  by (simp add: seqno_def)

section \<open>Reserved opcodes\<close>

lemma all_ff_invalid: "\<not> valid \<lparr>clear = replicate 16 0xFF, ciphr = replicate 16 0xFF\<rparr> w"
  by (simp add: valid_def Let_def or_eq_0_iff)

lemma reserved_iff: "opcode_reserved f \<longleftrightarrow> (6 \<le> f \<and> f \<le> 127) \<or> 255 < f"
  unfolding opcode_reserved_def op_LAST_def op_RESERVED0_def op_STEG0_def
  by (auto simp: word_less_nat_alt word_le_nat_alt)

text \<open>C10. For an opcode in the reserved range 6 to 127, or above 255, the encoding
  constructor yields a header whose cleartext and ciphertext are sixteen bytes 0xFF each,
  whatever the sequence number, the lengths and the cipher; \<open>valid\<close> is false on that
  header for every window value; and \<open>send_targeted\<close> with such an opcode never sends:
  it ends in an assertion failure, or returns -1 with the circuit as it was.\<close>

theorem reserved_opcode_header_invalid:
  assumes "(6 \<le> f \<and> f \<le> 127) \<or> 255 < f"
  shows "block_header_enc s d p f ec
           = Inr \<lparr>clear = replicate 16 0xFF, ciphr = replicate 16 0xFF\<rparr>
         \<and> \<not> valid \<lparr>clear = replicate 16 0xFF, ciphr = replicate 16 0xFF\<rparr> w
         \<and> (send_targeted5 st c dl pl f pay = Inl Assertion_failure
            \<or> send_targeted5 st c dl pl f pay = Inr (-1, st))"
proof -
  from assms have r: "opcode_reserved f" by (simp add: reserved_iff)
  have h: "\<And>s d p ec. block_header_enc s d p f ec
           = Inr \<lparr>clear = replicate 16 0xFF, ciphr = replicate 16 0xFF\<rparr>"
    using r by (simp add: block_header_enc_def)
  have "send_targeted5 st c dl pl f pay = Inl Assertion_failure
            \<or> send_targeted5 st c dl pl f pay = Inr (-1, st)"
    unfolding send_targeted5_def
    by (simp add: all_ff_invalid h)
  with h all_ff_invalid show ?thesis by blast
qed

theorem reserved_opcode_witness:
  "block_header_enc 1 2 3 6 toy_ecb
     = Inr \<lparr>clear = replicate 16 0xFF, ciphr = replicate 16 0xFF\<rparr>
   \<and> \<not> valid \<lparr>clear = replicate 16 0xFF, ciphr = replicate 16 0xFF\<rparr> 1
   \<and> send_targeted5 toy_circuit 0 5 0 6 Upstream_input = Inl Assertion_failure"
proof -
  have "send_targeted5 toy_circuit 0 5 0 6 Upstream_input \<noteq> Inr (-1, toy_circuit)"
    by (simp add: send_targeted5_def toy_defs const_defs block_header_enc_def
        opcode_reserved_def op_LAST_def op_RESERVED0_def op_STEG0_def all_ff_invalid)
  with reserved_opcode_header_invalid [of 6 1 2 3 toy_ecb 1 toy_circuit 0 5 0 Upstream_input]
  show ?thesis by simp
qed

section \<open>The reassembly queue\<close>

text \<open>C3. In any state of the queue, \<open>insert\<close> stores the block and returns true exactly
  when the unsigned 32-bit difference between the sequence number and \<open>next_to_process\<close>
  is at most 255 and the slot of the sequence number is empty; the slot is the one with
  index sequence number modulo 256, and it then holds the data and the opcode. In every
  other case it returns false, frees the payload and leaves the queue (all slots and
  \<open>next_to_process\<close>) as it was.\<close>

theorem insert_blk_accepts_iff_in_window_and_free:
  "insert_blk q sq f d =
     (if unat (sq - next_to_process q) \<le> 255 \<and> data (cbuf q (ucast sq)) = None
      then (True, q\<lparr>cbuf := (cbuf q)(ucast sq := \<lparr>data = Some d, op = f\<rparr>)\<rparr>, [])
      else (False, q, [d]))
   \<and> unat (ucast sq :: 8 word) = unat sq mod 256"
  unfolding insert_blk_def window_def Let_def slot_of_seq
  by (simp add: gt255 unat_ucast8 del: and_numerals)

theorem insert_blk_witness:
  "fst (insert_blk (reassembly_queue_new\<lparr>next_to_process := 250\<rparr>) 261 op_FIN [7, 8])
   \<and> data (cbuf (fst (snd (insert_blk (reassembly_queue_new\<lparr>next_to_process := 250\<rparr>)
                                261 op_FIN [7, 8]))) 5) = Some [7, 8]
   \<and> insert_blk reassembly_queue_new 256 op_DAT [7]
       = (False, reassembly_queue_new, [[7]])
   \<and> insert_blk (fst (snd (insert_blk reassembly_queue_new 5 op_DAT [7]))) 5 op_DAT [9]
       = (False, fst (snd (insert_blk reassembly_queue_new 5 op_DAT [7])), [[9]])"
  using insert_blk_accepts_iff_in_window_and_free
          [of "reassembly_queue_new\<lparr>next_to_process := 250\<rparr>" 261 op_FIN "[7, 8]"]
        insert_blk_accepts_iff_in_window_and_free [of reassembly_queue_new 256 op_DAT "[7]"]
        insert_blk_accepts_iff_in_window_and_free [of reassembly_queue_new 5 op_DAT "[7]"]
        insert_blk_accepts_iff_in_window_and_free
          [of "fst (snd (insert_blk reassembly_queue_new 5 op_DAT [7]))" 5 op_DAT "[9]"]
  by (simp add: reassembly_queue_new_def)

lemma remove_next_step:
  "remove_next q =
     (if data (cbuf q (ucast (next_to_process q))) = None then (empty_elt, q)
      else (cbuf q (ucast (next_to_process q)),
            q\<lparr>cbuf := (cbuf q)(ucast (next_to_process q) := empty_elt),
              next_to_process := next_to_process q + 1\<rparr>))"
  unfolding remove_next_def Let_def front_eq empty_elt_def by simp

lemma remove_many_consecutive:
  "\<forall>e \<in> set (fst (remove_many n q)). data e \<noteq> None \<Longrightarrow>
     (\<forall>k<n. fst (remove_many n q) ! k = cbuf q (ucast (next_to_process q + of_nat k)))
     \<and> next_to_process (snd (remove_many n q)) = next_to_process q + of_nat n
     \<and> length (fst (remove_many n q)) = n"
proof (induction n arbitrary: q)
  case 0
  then show ?case by simp
next
  case (Suc n)
  obtain e q' where r: "remove_next q = (e, q')" by (cases "remove_next q")
  obtain es q'' where m: "remove_many n q' = (es, q'')" by (cases "remove_many n q'")
  from Suc.prems r m have ne: "data e \<noteq> None" and nes: "\<forall>x\<in>set es. data x \<noteq> None"
    by auto
  from ne r have e: "e = cbuf q (ucast (next_to_process q))"
    and q': "q' = q\<lparr>cbuf := (cbuf q)(ucast (next_to_process q) := empty_elt),
              next_to_process := next_to_process q + 1\<rparr>"
    by (auto simp: remove_next_step empty_elt_def split: if_splits)
  from Suc.IH[of q'] nes m
  have ih: "\<forall>k<n. es ! k = cbuf q' (ucast (next_to_process q' + of_nat k))"
    and ihn: "next_to_process q'' = next_to_process q' + of_nat n"
    and ihl: "length es = n"
    by auto
  have "\<forall>k<Suc n. (e # es) ! k = cbuf q (ucast (next_to_process q + of_nat k))"
  proof (intro allI impI)
    fix k assume k: "k < Suc n"
    show "(e # es) ! k = cbuf q (ucast (next_to_process q + of_nat k))"
    proof (cases k)
      case 0
      then show ?thesis using e by simp
    next
      case (Suc j)
      with k have j: "j < n" by simp
      with ih have ej: "es ! j = cbuf q' (ucast (next_to_process q' + of_nat j))" by simp
      from j ihl nes have "data (es ! j) \<noteq> None" by simp
      with ej q' have "(ucast (next_to_process q + 1 + of_nat j) :: 8 word)
                         \<noteq> ucast (next_to_process q)"
        by (auto simp: empty_elt_def split: if_splits)
      with ej q' Suc show ?thesis by (simp add: ac_simps)
    qed
  qed
  with ihn ihl q' r m show ?case by (simp add: ac_simps)
qed

text \<open>C4. In any state of the queue, \<open>remove_next\<close> looks at the slot with index
  \<open>next_to_process & 0xFF\<close>: if it is empty the result is an empty element and the queue
  is unchanged; otherwise the result is the slot's data and opcode, the slot is cleared,
  and \<open>next_to_process\<close> grows by one modulo \<open>2 ^ 32\<close>. Hence when \<open>n\<close> calls in a row
  all return a block, the \<open>k\<close>-th of them returns what the slot of sequence number
  \<open>next_to_process + k\<close> held at the start, and \<open>next_to_process\<close> ends \<open>n\<close> higher.\<close>

theorem remove_next_in_sequence_order:
  "remove_next q =
     (if data (cbuf q (ucast (next_to_process q AND 0xFF))) = None then (empty_elt, q)
      else (cbuf q (ucast (next_to_process q AND 0xFF)),
            q\<lparr>cbuf := (cbuf q)(ucast (next_to_process q AND 0xFF) := empty_elt),
              next_to_process := next_to_process q + 1\<rparr>))
   \<and> unat (next_to_process q + 1) = (unat (next_to_process q) + 1) mod 2 ^ 32
   \<and> ((\<forall>e \<in> set (fst (remove_many n q)). data e \<noteq> None) \<longrightarrow>
        (\<forall>k<n. fst (remove_many n q) ! k
                  = cbuf q (ucast ((next_to_process q + of_nat k) AND 0xFF)))
        \<and> next_to_process (snd (remove_many n q)) = next_to_process q + of_nat n)"
proof -
  have a: "remove_next q =
     (if data (cbuf q (ucast (next_to_process q AND 0xFF))) = None then (empty_elt, q)
      else (cbuf q (ucast (next_to_process q AND 0xFF)),
            q\<lparr>cbuf := (cbuf q)(ucast (next_to_process q AND 0xFF) := empty_elt),
              next_to_process := next_to_process q + 1\<rparr>))"
    unfolding front_eq by (rule remove_next_step)
  have b: "unat (next_to_process q + 1) = (unat (next_to_process q) + 1) mod 2 ^ 32"
    by (simp add: unat_word_ariths)
  have c: "(\<forall>e \<in> set (fst (remove_many n q)). data e \<noteq> None) \<longrightarrow>
        (\<forall>k<n. fst (remove_many n q) ! k
                  = cbuf q (ucast ((next_to_process q + of_nat k) AND 0xFF)))
        \<and> next_to_process (snd (remove_many n q)) = next_to_process q + of_nat n"
    unfolding front_eq using remove_many_consecutive[of n q] by blast
  from a b c show ?thesis by blast
qed

theorem remove_next_witness:
  "fst (remove_next toy_queue) = \<lparr>data = Some [1], op = op_DAT\<rparr>
   \<and> next_to_process (snd (remove_next toy_queue)) = 0
   \<and> fst (remove_many 2 toy_queue)
       = [\<lparr>data = Some [1], op = op_DAT\<rparr>, \<lparr>data = Some [2, 3], op = op_FIN\<rparr>]
   \<and> next_to_process (snd (remove_many 2 toy_queue)) = 1
   \<and> remove_next reassembly_queue_new = (empty_elt, reassembly_queue_new)"
proof -
  have two: "remove_many 2 q = (case remove_next q of (e, q') \<Rightarrow>
        (case remove_next q' of (e', q'') \<Rightarrow> ([e, e'], q'')))" for q
    by (simp add: numeral_2_eq_2 split: prod.splits)
  have m: "fst (remove_many 2 toy_queue)
       = [\<lparr>data = Some [1], op = op_DAT\<rparr>, \<lparr>data = Some [2, 3], op = op_FIN\<rparr>]"
    by (simp add: two remove_next_step toy_queue_def empty_elt_def)
  from remove_next_in_sequence_order [of toy_queue 2]
       remove_next_in_sequence_order [of reassembly_queue_new 0] m
  show ?thesis
    by (simp add: toy_queue_def reassembly_queue_new_def empty_elt_def op_DAT_def)
qed

section \<open>The send scheduler\<close>

lemma clamp_room_le: "clamp_room r \<le> MAX_BLOCK_SIZE"
  by (simp add: clamp_room_def Let_def)

lemma room_in_le: "room_in cs c r \<Longrightarrow> r < MAX_BLOCK_SIZE + 1"
  using clamp_room_le by (auto simp: room_in_def less_Suc_eq_le)

lemma room_in_None: "steg (cs c) = None \<Longrightarrow> \<not> room_in cs c r"
  by (simp add: room_in_def)

lemma room_in_Some: "steg (cs c) = Some st \<Longrightarrow> room_in cs c r \<longleftrightarrow> r = clamp_room (transmit_room st)"
  by (auto simp: room_in_def)

lemma pick_loop_inv:
  "pick_inv cs desired A acc \<Longrightarrow> pick_inv cs desired (A \<union> set xs) (pick_loop cs desired xs acc)"
proof (induction xs arbitrary: A acc)
  case Nil
  then show ?case by simp
next
  case (Cons c xs)
  obtain mb ma tb ta where acc: "acc = (mb, ma, tb, ta)" by (cases acc)
  have step: "\<And>acc'. pick_inv cs desired (insert c A) acc' \<Longrightarrow>
       pick_inv cs desired (A \<union> set (c # xs)) (pick_loop cs desired xs acc')"
    using Cons.IH[of "insert c A"] by simp
  show ?case
  proof (cases "steg (cs c)")
    case None
    have "pick_inv cs desired (insert c A) acc"
      using Cons.prems None
      by (auto simp: pick_inv_def acc room_in_None split: option.splits)
    from step[OF this] show ?thesis using None by (simp add: acc)
  next
    case (Some st)
    let ?r = "clamp_room (transmit_room st)"
    have ri: "\<And>r. room_in cs c r \<longleftrightarrow> r = clamp_room (transmit_room st)" using Some by (auto simp: room_in_def)
    have rle: "?r < MAX_BLOCK_SIZE + 1" using clamp_room_le[of "transmit_room st"] by simp
    consider (a) "desired \<le> ?r" "?r < ma" | (b) "desired \<le> ?r" "\<not> ?r < ma"
      | (c) "\<not> desired \<le> ?r" "mb < ?r" | (d) "\<not> desired \<le> ?r" "\<not> mb < ?r"
      by blast
    then show ?thesis
    proof cases
      case a
      have "pick_inv cs desired (insert c A) (mb, ?r, tb, Some c)"
        using Cons.prems a unfolding pick_inv_def acc
        apply (auto simp: ri split: option.splits)
          apply (meson le_trans less_imp_le_nat not_less)+
        done
      from step[OF this] show ?thesis using Some a by (simp add: acc Let_def)
    next
      case b
      have "pick_inv cs desired (insert c A) (mb, ma, tb, ta)"
        using Cons.prems b rle unfolding pick_inv_def acc
        by (auto simp: ri split: option.splits)
      from step[OF this] show ?thesis using Some b by (simp add: acc Let_def)
    next
      case c
      have "pick_inv cs desired (insert c A) (?r, ma, Some c, ta)"
        using Cons.prems c unfolding pick_inv_def acc
        apply (auto simp: ri split: option.splits)
         apply (meson le_trans less_imp_le_nat not_less)+
        done
      from step[OF this] show ?thesis using Some c by (simp add: acc Let_def)
    next
      case d
      have "pick_inv cs desired (insert c A) (mb, ma, tb, ta)"
        using Cons.prems d unfolding pick_inv_def acc
        by (auto simp: ri split: option.splits)
      from step[OF this] show ?thesis using Some d by (simp add: acc Let_def)
    qed
  qed
qed

lemma pick_inv_init: "pick_inv cs desired {} (0, MAX_BLOCK_SIZE + 1, None, None)"
  by (simp add: pick_inv_def)


lemma pick_connection_inv:
  "pick_connection s d = (r, b) \<Longrightarrow>
     \<exists>mb ma tb ta. pick_inv (conns s) (min d SECTION_LEN + MIN_BLOCK_SIZE) (set (downstreams s)) (mb, ma, tb, ta)
       \<and> (case ta of Some c \<Rightarrow> r = Some c \<and> b = min d SECTION_LEN + MIN_BLOCK_SIZE
                    | None \<Rightarrow> r = tb \<and> b = mb)"
proof -
  assume a: "pick_connection s d = (r, b)"
  let ?D = "min d SECTION_LEN + MIN_BLOCK_SIZE"
  have D: "(if d > SECTION_LEN then SECTION_LEN else d) + MIN_BLOCK_SIZE = ?D"
    by (simp add: min_def)
  obtain mb ma tb ta where
    pl: "pick_loop (conns s) ?D (downstreams s) (0, MAX_BLOCK_SIZE + 1, None, None) = (mb, ma, tb, ta)"
    by (metis prod_cases4)
  from pick_loop_inv[OF pick_inv_init, of "conns s" ?D "downstreams s"] pl
  have "pick_inv (conns s) ?D (set (downstreams s)) (mb, ma, tb, ta)" by simp
  moreover from a pl have "case ta of Some c \<Rightarrow> r = Some c \<and> b = ?D | None \<Rightarrow> r = tb \<and> b = mb"
    unfolding pick_connection_def Let_def D by (auto split: option.splits)
  ultimately show ?thesis by blast
qed


lemma pick_inv_above:
  assumes "pick_inv cs D A (mb, ma, tb, Some c)"
  shows "c \<in> A" and "\<exists>st. steg (cs c) = Some st \<and> clamp_room (transmit_room st) = ma"
    and "D \<le> ma"
    and "\<And>c' st'. c' \<in> A \<Longrightarrow> steg (cs c') = Some st' \<Longrightarrow> D \<le> clamp_room (transmit_room st')
           \<Longrightarrow> ma \<le> clamp_room (transmit_room st')"
  using assms unfolding pick_inv_def room_in_def by simp_all

lemma pick_inv_none_above:
  assumes "pick_inv cs D A (mb, ma, tb, None)"
  shows "\<And>c' st'. c' \<in> A \<Longrightarrow> steg (cs c') = Some st' \<Longrightarrow> clamp_room (transmit_room st') < D"
  using assms unfolding pick_inv_def room_in_def by simp

lemma pick_inv_below:
  assumes "pick_inv cs D A (mb, ma, Some c, ta)"
  shows "c \<in> A" and "\<exists>st. steg (cs c) = Some st \<and> clamp_room (transmit_room st) = mb"
    and "0 < mb" and "mb < D"
    and "\<And>c' st'. c' \<in> A \<Longrightarrow> steg (cs c') = Some st' \<Longrightarrow> clamp_room (transmit_room st') < D
           \<Longrightarrow> clamp_room (transmit_room st') \<le> mb"
  using assms unfolding pick_inv_def room_in_def by (simp_all split: option.splits)

lemma pick_inv_none_below:
  assumes "pick_inv cs D A (mb, ma, None, ta)"
  shows "mb = 0"
    and "\<And>c' st'. c' \<in> A \<Longrightarrow> steg (cs c') = Some st' \<Longrightarrow> clamp_room (transmit_room st') < D
           \<Longrightarrow> clamp_room (transmit_room st') = 0"
  using assms unfolding pick_inv_def room_in_def by (simp_all split: option.splits)


text \<open>C5. \<open>pick_connection(d, &blocksize)\<close> aims at the total size
  \<open>min(d, 65535) + 32\<close>. A downstream with a module offers its \<open>transmit_room\<close>,
  read as 0 when at most 32 and as 131102 when larger than that. If the function returns
  a connection, it is an attached one with a module: either its room reaches the target,
  \<open>*blocksize\<close> is the target, and no attached connection whose room reaches the target
  has a smaller room; or its room is below the target and positive, \<open>*blocksize\<close> is
  that room, and no attached connection has a larger room (so none reaches the target).
  If it returns null, \<open>*blocksize\<close> is 0 and every attached connection with a module
  offers room 0.\<close>

theorem pick_connection_best_fit:
  assumes "pick_connection s d = (r, b)"
  shows "(case r of
            Some c \<Rightarrow>
              c \<in> set (downstreams s) \<and>
              (\<exists>st. steg (conns s c) = Some st \<and>
                 (if min d 65535 + 32 \<le> clamp_room (transmit_room st)
                  then b = min d 65535 + 32 \<and>
                       (\<forall>c' \<in> set (downstreams s). \<forall>st'.
                          steg (conns s c') = Some st' \<and>
                          min d 65535 + 32 \<le> clamp_room (transmit_room st')
                          \<longrightarrow> clamp_room (transmit_room st) \<le> clamp_room (transmit_room st'))
                  else b = clamp_room (transmit_room st) \<and> 0 < b \<and>
                       (\<forall>c' \<in> set (downstreams s). \<forall>st'.
                          steg (conns s c') = Some st'
                          \<longrightarrow> clamp_room (transmit_room st') \<le> b)))
          | None \<Rightarrow>
              b = 0 \<and>
              (\<forall>c \<in> set (downstreams s). \<forall>st.
                 steg (conns s c) = Some st \<longrightarrow> clamp_room (transmit_room st) = 0))
         \<and> clamp_room x = (if x \<le> 32 then 0 else if x > 131102 then 131102 else x)"
proof -
  let ?D = "min d SECTION_LEN + MIN_BLOCK_SIZE"
  let ?A = "set (downstreams s)"
  let ?room = "\<lambda>st. clamp_room (transmit_room st)"
  have D: "?D = min d 65535 + 32"
    by (simp add: SECTION_LEN_def MIN_BLOCK_SIZE_def HEADER_LEN_def TRAILER_LEN_def)
  have cl: "clamp_room x = (if x \<le> 32 then 0 else if x > 131102 then 131102 else x)"
    by (simp add: clamp_room_def Let_def SECTION_LEN_def MIN_BLOCK_SIZE_def MAX_BLOCK_SIZE_def
        HEADER_LEN_def TRAILER_LEN_def)
  from pick_connection_inv[OF assms] obtain mb ma tb ta where
    inv: "pick_inv (conns s) ?D ?A (mb, ma, tb, ta)"
    and res: "case ta of Some c \<Rightarrow> r = Some c \<and> b = ?D | None \<Rightarrow> r = tb \<and> b = mb"
    by blast
  have main: "case r of
            Some c \<Rightarrow>
              c \<in> ?A \<and>
              (\<exists>st. steg (conns s c) = Some st \<and>
                 (if ?D \<le> ?room st
                  then b = ?D \<and>
                       (\<forall>c' \<in> ?A. \<forall>st'.
                          steg (conns s c') = Some st' \<and> ?D \<le> ?room st'
                          \<longrightarrow> ?room st \<le> ?room st')
                  else b = ?room st \<and> 0 < b \<and>
                       (\<forall>c' \<in> ?A. \<forall>st'.
                          steg (conns s c') = Some st' \<longrightarrow> ?room st' \<le> b)))
          | None \<Rightarrow>
              b = 0 \<and>
              (\<forall>c \<in> ?A. \<forall>st. steg (conns s c) = Some st \<longrightarrow> ?room st = 0)"
  proof (cases ta)
    case (Some c)
    with res have r: "r = Some c" and b: "b = ?D" by simp_all
    from inv Some have i: "pick_inv (conns s) ?D ?A (mb, ma, tb, Some c)" by simp
    from pick_inv_above(2)[OF i] obtain st where
      st: "steg (conns s c) = Some st" and rm: "?room st = ma" by blast
    have "\<forall>c' \<in> ?A. \<forall>st'. steg (conns s c') = Some st' \<and> ?D \<le> ?room st'
            \<longrightarrow> ?room st \<le> ?room st'"
      using pick_inv_above(4)[OF i] rm by blast
    with pick_inv_above(1)[OF i] pick_inv_above(3)[OF i] st rm r b show ?thesis
      by simp
  next
    case None
    with res have r: "r = tb" and b: "b = mb" by simp_all
    from inv None have i: "pick_inv (conns s) ?D ?A (mb, ma, tb, None)" by simp
    note na = pick_inv_none_above[OF i]
    show ?thesis
    proof (cases tb)
      case None
      with i have j: "pick_inv (conns s) ?D ?A (mb, ma, None, None)" by simp
      have "\<forall>c \<in> ?A. \<forall>st. steg (conns s c) = Some st \<longrightarrow> ?room st = 0"
        using pick_inv_none_below(2)[OF j] na by blast
      with pick_inv_none_below(1)[OF j] r b None show ?thesis by simp
    next
      case (Some c)
      with i have j: "pick_inv (conns s) ?D ?A (mb, ma, Some c, None)" by simp
      from pick_inv_below(2)[OF j] obtain st where
        st: "steg (conns s c) = Some st" and rm: "?room st = mb" by blast
      have "\<forall>c' \<in> ?A. \<forall>st'. steg (conns s c') = Some st' \<longrightarrow> ?room st' \<le> mb"
        using pick_inv_below(5)[OF j] na by blast
      with pick_inv_below(1)[OF j] pick_inv_below(3)[OF j] pick_inv_below(4)[OF j] st rm r b Some
      show ?thesis by simp
    qed
  qed
  show ?thesis
    using main cl unfolding D by simp
qed


theorem pick_connection_witness:
  "pick_connection toy_circuit 5 = (Some 0, 37)
   \<and> pick_connection toy_circuit 500 = (Some 1, 100)
   \<and> pick_connection (toy_circuit\<lparr>downstreams := [2]\<rparr>) 5 = (None, 0)
   \<and> (\<exists>st. steg (conns toy_circuit 0) = Some st \<and> clamp_room (transmit_room st) = 40)"
proof -
  have a: "pick_connection toy_circuit 5 = (Some 0, 37)"
    and b: "pick_connection toy_circuit 500 = (Some 1, 100)"
    and c: "pick_connection (toy_circuit\<lparr>downstreams := [2]\<rparr>) 5 = (None, 0)"
    by (simp_all add: pick_connection_def toy_defs const_defs clamp_room_def transmit_room_def)
  from pick_connection_best_fit [OF a, of 0] pick_connection_best_fit [OF b, of 0]
       pick_connection_best_fit [OF c, of 0] a b c
  show ?thesis
    by (simp add: toy_defs clamp_room_def transmit_room_def const_defs)
qed

section \<open>The bytes of the header\<close>

lemma m8_32: "(0xFF :: 32 word) = mask 8" by (simp add: mask_eq_exp_minus_1)
lemma m8_16: "(0xFF :: 16 word) = mask 8" by (simp add: mask_eq_exp_minus_1)

lemma header_bytes_nth:
  "header_bytes s d p f ! 0 = ucast (drop_bit 24 s)"
  "header_bytes s d p f ! 1 = ucast (drop_bit 16 s)"
  "header_bytes s d p f ! Suc 0 = ucast (drop_bit 16 s)"
  "header_bytes s d p f ! 2 = ucast (drop_bit 8 s)"
  "header_bytes s d p f ! 3 = ucast s"
  "header_bytes s d p f ! 4 = ucast (drop_bit 8 d)"
  "header_bytes s d p f ! 5 = ucast d"
  "header_bytes s d p f ! 6 = ucast (drop_bit 8 p)"
  "header_bytes s d p f ! 7 = ucast p"
  "header_bytes s d p f ! 8 = ucast f"
  unfolding header_bytes_def m8_32 m8_16
  by (simp_all add: bit_eq_iff bit_simps) 

lemma header_bytes_check:
  "header_bytes s d p f ! 9 = 0" "header_bytes s d p f ! 10 = 0" "header_bytes s d p f ! 11 = 0"
  "header_bytes s d p f ! 12 = 0" "header_bytes s d p f ! 13 = 0" "header_bytes s d p f ! 14 = 0"
  "header_bytes s d p f ! 15 = 0"
  unfolding header_bytes_def by (simp_all add: numeral_eq_Suc)

lemma length_header_bytes: "length (header_bytes s d p f) = 16"
  by (simp add: header_bytes_def)

lemma seqno_header_bytes: "seqno \<lparr>clear = header_bytes s d p f, ciphr = c\<rparr> = s"
  unfolding seqno_def
  apply (simp add: header_bytes_nth)
  apply (rule bit_word_eqI)
  subgoal for n
    apply (cases "n < 8"; cases "n < 16"; cases "n < 24")
           apply (auto simp: bit_simps)
    done
  done

lemma unat_ucast_16_32: "unat (ucast (d :: 16 word) :: 32 word) = unat d"
proof -
  have "unat d < 2 ^ 16" using unsigned_less [of d] by simp
  then have "unat d < 2 ^ 32" by simp
  then show ?thesis by (simp add: unsigned_ucast_eq take_bit_nat_eq_self)
qed

lemma dlen_header_bytes: "dlen \<lparr>clear = header_bytes s d p f, ciphr = c\<rparr> = unat d"
proof -
  have "(push_bit 8 (ucast (ucast (drop_bit 8 d) :: byte)) OR ucast (ucast d :: byte) :: 32 word) = ucast d"
    apply (rule bit_word_eqI)
    apply (auto simp: bit_simps dest: bit_imp_le_length)
    done
  then show ?thesis
    unfolding dlen_def by (simp add: header_bytes_nth unat_ucast_16_32)
qed

lemma plen_header_bytes: "plen \<lparr>clear = header_bytes s d p f, ciphr = c\<rparr> = unat p"
proof -
  have "(push_bit 8 (ucast (ucast (drop_bit 8 p) :: byte)) OR ucast (ucast p :: byte) :: 32 word) = ucast p"
    apply (rule bit_word_eqI)
    apply (auto simp: bit_simps dest: bit_imp_le_length)
    done
  then show ?thesis
    unfolding plen_def by (simp add: header_bytes_nth unat_ucast_16_32)
qed

lemma opcode_header_bytes: "opcode \<lparr>clear = header_bytes s d p f, ciphr = c\<rparr> = f AND 0xFF"
  unfolding opcode_def m8_32
  apply (simp add: header_bytes_nth)
  apply (rule bit_word_eqI)
  apply (auto simp: bit_simps)
  done

lemma unat_of_nat16: "n \<le> 65535 \<Longrightarrow> unat (of_nat n :: 16 word) = n"
  by (simp add: unat_of_nat take_bit_nat_eq_self)

section \<open>Sending a block\<close>

lemma block_header_enc_valid:
  assumes "block_header_enc s d p f ec = Inr h" and "valid h w"
  shows "\<not> opcode_reserved f"
    and "\<exists>hc. ec (header_bytes s d p f) = Some hc \<and> length hc = 16
               \<and> h = \<lparr>clear = header_bytes s d p f, ciphr = hc\<rparr>"
proof -
  show r: "\<not> opcode_reserved f"
  proof
    assume "opcode_reserved f"
    with assms(1) have "h = \<lparr>clear = replicate 16 0xFF, ciphr = replicate 16 0xFF\<rparr>"
      by (simp add: block_header_enc_def)
    with assms(2) all_ff_invalid show False by simp
  qed
  with assms(1) show "\<exists>hc. ec (header_bytes s d p f) = Some hc \<and> length hc = 16
               \<and> h = \<lparr>clear = header_bytes s d p f, ciphr = hc\<rparr>"
    by (auto simp: block_header_enc_def ecb_encrypt_def AES_BLOCK_LEN_def length_header_bytes
        split: option.splits if_splits sum.splits)
qed

lemma gcm_encrypt_Inr:
  assumes "gcm_encrypt ctx inp n = Inr body"
  shows "\<exists>ct tag. ctx n [] inp = Some (ct, tag) \<and> length ct = length inp \<and> length tag = 16
                  \<and> body = ct @ tag"
  using assms by (auto simp: gcm_encrypt_def split: option.splits if_splits)

lemma conn_send_Inr:
  assumes "conn_send s c b = Inr (rc, s1)"
  shows "(rc = 0 \<and> (\<exists>st st'. steg (conns s c) = Some st
            \<and> transmit st ((if \<not> sent_handshake (conns s c) \<and> mode s \<noteq> LSN_SIMPLE_SERVER
                             then handshake_bytes (circuit_id s) else []) @ b) = Some st'
            \<and> s1 = add_event (Steg_transmit c
                       ((if \<not> sent_handshake (conns s c) \<and> mode s \<noteq> LSN_SIMPLE_SERVER
                         then handshake_bytes (circuit_id s) else []) @ b))
                     (s\<lparr>conns := (conns s)
                          (c := (conns s c)\<lparr>steg := Some st', sent_handshake := True,
                                            must_send_pending := False\<rparr>)\<rparr>)))
         \<or> (rc = -1 \<and> s1 = s)"
  using assms unfolding conn_send_def Let_def
  by (auto split: if_splits option.splits)

lemma send_targeted5_Inr:
  assumes "send_targeted5 s c d p f pay = Inr (rc, s')"
  shows "(rc = -1 \<and> s' = s) \<or>
         (rc = 0 \<and> \<not> opcode_reserved f \<and> d \<le> SECTION_LEN \<and> p \<le> SECTION_LEN \<and> evbuffer_ok s \<and>
          (pay = Upstream_input \<and> d \<le> length (xmit_pending s) \<or> pay = Null_payload \<and> d = 0) \<and>
          (\<exists>hc ct tag st st'.
             send_hdr_crypt s (header_bytes (send_seq s) (of_nat d) (of_nat p) f) = Some hc \<and>
             length hc = 16 \<and>
             send_crypt s hc []
               ((case pay of Null_payload \<Rightarrow> [] | Upstream_input \<Rightarrow> take d (xmit_pending s))
                @ replicate p 0) = Some (ct, tag) \<and>
             length ct = d + p \<and> length tag = 16 \<and>
             steg (conns s c) = Some st \<and>
             transmit st ((if \<not> sent_handshake (conns s c) \<and> mode s \<noteq> LSN_SIMPLE_SERVER
                           then handshake_bytes (circuit_id s) else []) @ hc @ ct @ tag) = Some st' \<and>
             s' = s\<lparr>conns := (conns s)
                          (c := (conns s c)\<lparr>steg := Some st', sent_handshake := True,
                                            must_send_pending := False\<rparr>),
                    send_seq := send_seq s + 1,
                    sent_fin := (sent_fin s \<or> f = op_FIN),
                    xmit_pending := (case pay of Null_payload \<Rightarrow> xmit_pending s
                                     | Upstream_input \<Rightarrow> drop d (xmit_pending s)),
                    trace := trace s @
                      [Steg_transmit c
                         ((if \<not> sent_handshake (conns s c) \<and> mode s \<noteq> LSN_SIMPLE_SERVER
                           then handshake_bytes (circuit_id s) else []) @ hc @ ct @ tag),
                       Block_sent c
                         \<lparr>clear = header_bytes (send_seq s) (of_nat d) (of_nat p) f, ciphr = hc\<rparr>
                         (hc @ ct @ tag)]\<rparr>))"
proof -
  let ?pd = "(case pay of Null_payload \<Rightarrow> [] | Upstream_input \<Rightarrow> take d (xmit_pending s))"
  from assms have pre: "\<not> (pay = Null_payload \<and> d \<noteq> 0)" "d \<le> SECTION_LEN" "p \<le> SECTION_LEN"
    unfolding send_targeted5_def by (simp_all split: if_splits)
  show ?thesis
  proof (cases "evbuffer_ok s")
    case False
    with assms pre show ?thesis unfolding send_targeted5_def by (auto split: if_splits)
  next
    case ok: True
    from assms pre ok obtain hdr where
      h: "block_header_enc (send_seq s) (of_nat d) (of_nat p) f (send_hdr_crypt s) = Inr hdr"
      unfolding send_targeted5_def by (auto split: sum.splits)
    from assms pre ok h have v: "valid hdr (ucast (send_seq s))"
      unfolding send_targeted5_def by (auto split: if_splits)
    from block_header_enc_valid[OF h v] obtain hc where
      nr: "\<not> opcode_reserved f"
      and hc: "send_hdr_crypt s (header_bytes (send_seq s) (of_nat d) (of_nat p) f) = Some hc"
              "length hc = 16"
      and hdr: "hdr = \<lparr>clear = header_bytes (send_seq s) (of_nat d) (of_nat p) f, ciphr = hc\<rparr>"
      by blast
    show ?thesis
    proof (cases "pay = Upstream_input \<and> length (take d (xmit_pending s)) \<noteq> d")
      case True
      with assms pre ok h v show ?thesis unfolding send_targeted5_def by (auto split: if_splits)
    next
      case len: False
      from len pre have pl: "pay = Upstream_input \<and> d \<le> length (xmit_pending s) \<or> pay = Null_payload \<and> d = 0"
        by (cases pay) auto
      then have lpd: "length ?pd = d" by (auto split: payload_ref.splits)
      from assms pre ok h v len obtain body where
        g: "gcm_encrypt (send_crypt s) (?pd @ replicate p 0) (nonce hdr) = Inr body"
        unfolding send_targeted5_def Let_def by (auto split: sum.splits)
      from gcm_encrypt_Inr[OF g] lpd obtain ct tag where
        ct: "send_crypt s hc [] (?pd @ replicate p 0) = Some (ct, tag)"
            "length ct = d + p" "length tag = 16"
        and body: "body = ct @ tag"
        by (auto simp: nonce_def hdr)
      have blk: "take HEADER_LEN (nonce hdr) @ body = hc @ ct @ tag"
        using hc(2) by (simp add: nonce_def hdr HEADER_LEN_def body)
      show ?thesis
      proof (cases "conn_send s c (hc @ ct @ tag)")
        case (Inl e)
        with pre ok v len pl h g blk have "send_targeted5 s c d p f pay = Inl e"
          by (cases pay; simp add: send_targeted5_def Let_def)
        with assms show ?thesis by simp
      next
        case (Inr r)
        obtain rc1 s1 where r: "r = (rc1, s1)" by (cases r)
        with Inr have cs: "conn_send s c (hc @ ct @ tag) = Inr (rc1, s1)" by simp
        from conn_send_Inr[OF cs] show ?thesis
        proof
          assume f: "rc1 = - 1 \<and> s1 = s"
          with pre ok v len pl h g blk cs have "send_targeted5 s c d p f pay = Inr (-1, s)"
            by (cases pay; simp add: send_targeted5_def Let_def)
          with assms show ?thesis by simp
        next
          assume "rc1 = 0 \<and> (\<exists>st st'. steg (conns s c) = Some st
            \<and> transmit st ((if \<not> sent_handshake (conns s c) \<and> mode s \<noteq> LSN_SIMPLE_SERVER
                             then handshake_bytes (circuit_id s) else []) @ hc @ ct @ tag) = Some st'
            \<and> s1 = add_event (Steg_transmit c
                       ((if \<not> sent_handshake (conns s c) \<and> mode s \<noteq> LSN_SIMPLE_SERVER
                         then handshake_bytes (circuit_id s) else []) @ hc @ ct @ tag))
                     (s\<lparr>conns := (conns s)
                          (c := (conns s c)\<lparr>steg := Some st', sent_handshake := True,
                                            must_send_pending := False\<rparr>)\<rparr>))"
          then obtain st st' where rc1: "rc1 = 0" and st: "steg (conns s c) = Some st"
            and tr: "transmit st ((if \<not> sent_handshake (conns s c) \<and> mode s \<noteq> LSN_SIMPLE_SERVER
                             then handshake_bytes (circuit_id s) else []) @ hc @ ct @ tag) = Some st'"
            and s1: "s1 = add_event (Steg_transmit c
                       ((if \<not> sent_handshake (conns s c) \<and> mode s \<noteq> LSN_SIMPLE_SERVER
                         then handshake_bytes (circuit_id s) else []) @ hc @ ct @ tag))
                     (s\<lparr>conns := (conns s)
                          (c := (conns s c)\<lparr>steg := Some st', sent_handshake := True,
                                            must_send_pending := False\<rparr>)\<rparr>)"
            by blast
          let ?s' = "s\<lparr>conns := (conns s)
                          (c := (conns s c)\<lparr>steg := Some st', sent_handshake := True,
                                            must_send_pending := False\<rparr>),
                    send_seq := send_seq s + 1,
                    sent_fin := (sent_fin s \<or> f = op_FIN),
                    xmit_pending := (case pay of Null_payload \<Rightarrow> xmit_pending s
                                     | Upstream_input \<Rightarrow> drop d (xmit_pending s)),
                    trace := trace s @
                      [Steg_transmit c
                         ((if \<not> sent_handshake (conns s c) \<and> mode s \<noteq> LSN_SIMPLE_SERVER
                           then handshake_bytes (circuit_id s) else []) @ hc @ ct @ tag),
                       Block_sent c
                         \<lparr>clear = header_bytes (send_seq s) (of_nat d) (of_nat p) f, ciphr = hc\<rparr>
                         (hc @ ct @ tag)]\<rparr>"
          from pre ok v len pl h g blk cs rc1 have
            "send_targeted5 s c d p f pay = Inr (0,
               (let s2 = (case pay of Null_payload \<Rightarrow> s1
                                  | Upstream_input \<Rightarrow> s1\<lparr>xmit_pending := drop d (xmit_pending s1)\<rparr>);
                    s3 = add_event (Block_sent c hdr (hc @ ct @ tag))
                                  (s2\<lparr>send_seq := send_seq s2 + 1\<rparr>)
                in if f = op_FIN then s3\<lparr>sent_fin := True\<rparr> else s3))"
            by (cases pay; simp add: send_targeted5_def Let_def)
          also have "(let s2 = (case pay of Null_payload \<Rightarrow> s1
                                  | Upstream_input \<Rightarrow> s1\<lparr>xmit_pending := drop d (xmit_pending s1)\<rparr>);
                    s3 = add_event (Block_sent c hdr (hc @ ct @ tag))
                                  (s2\<lparr>send_seq := send_seq s2 + 1\<rparr>)
                in if f = op_FIN then s3\<lparr>sent_fin := True\<rparr> else s3) = ?s'"
            by (cases pay) (simp_all add: add_event_def hdr Let_def s1)
          finally have "send_targeted5 s c d p f pay = Inr (0, ?s')" .
          with assms have rc: "rc = 0" and s': "s' = ?s'" by simp_all
          from rc nr pre ok pl hc ct st tr s' show ?thesis by blast
        qed
      qed
    qed
  qed
qed

lemma header_bytes_layout:
  "header_bytes s d p f =
     [ucast (drop_bit 24 s), ucast (drop_bit 16 s), ucast (drop_bit 8 s), ucast s,
      ucast (drop_bit 8 d), ucast d, ucast (drop_bit 8 p), ucast p, ucast f,
      0, 0, 0, 0, 0, 0, 0]"
  unfolding header_bytes_def m8_32 m8_16
  by (simp add: bit_eq_iff bit_simps numeral_eq_Suc)

lemma size_sub_le:
  assumes "b \<le> a" and "a < 2 ^ 64"
  shows "size_sub a b = a - b"
proof -
  from assms have "0 \<le> int a - int b" "int a - int b < 2 ^ 64" by simp_all
  then have "(int a - int b) mod 2 ^ 64 = int a - int b" by simp
  with assms show ?thesis by (simp add: size_sub_def)
qed

lemma size_sub_gt:
  assumes "a < b" and "b < 2 ^ 64"
  shows "size_sub a b = 2 ^ 64 - (b - a)"
proof -
  have "(int a - int b) mod 2 ^ 64 = (int a - int b + 2 ^ 64) mod 2 ^ 64" by simp
  also from assms have "\<dots> = int a - int b + 2 ^ 64"
    by (intro mod_pos_pos_trivial) simp_all
  finally have "size_sub a b = nat (int a - int b + 2 ^ 64)" by (simp add: size_sub_def)
  also from assms have "\<dots> = 2 ^ 64 - (b - a)"
    by (simp add: nat_diff_distrib nat_add_distrib nat_power_eq) 
  finally show ?thesis .
qed

lemma size_sub_small:
  assumes "size_sub a b \<le> 65535" and "a < 2 ^ 63" and "b < 2 ^ 63"
  shows "b \<le> a \<and> size_sub a b = a - b"
proof (cases "b \<le> a")
  case True
  with assms show ?thesis by (simp add: size_sub_le)
next
  case False
  with assms have "size_sub a b = 2 ^ 64 - (b - a)" by (simp add: size_sub_gt)
  moreover from assms have "b - a < 2 ^ 63" by simp
  ultimately have "size_sub a b > 2 ^ 63" by simp
  with assms(1) show ?thesis by simp
qed

lemma opcode_legal_low: "\<not> opcode_reserved f \<Longrightarrow> f AND 0xFF = f"
proof -
  assume "\<not> opcode_reserved f"
  then have "f \<le> 255" by (auto simp: opcode_reserved_def op_LAST_def)
  then have "f < 2 ^ 8" by (simp add: word_less_nat_alt word_le_nat_alt)
  then show ?thesis unfolding m8_32 by (simp add: less_mask_eq)
qed

text \<open>C1. When \<open>send_targeted(conn, D, P, F, payload)\<close> succeeds on a circuit whose
  \<open>send_seq\<close> is \<open>S\<close>, the block it has built is the concatenation of three parts. The
  first sixteen bytes are what the header cipher makes of the cleartext header with \<open>S\<close>
  big-endian in bytes 0 to 3, \<open>D\<close> in bytes 4 and 5, \<open>P\<close> in bytes 6 and 7, \<open>F\<close> in byte 8
  and zero in bytes 9 to 15. The next \<open>D + P\<close> bytes are the GCM ciphertext, under the
  payload key, with empty associated data and those sixteen encrypted header bytes as
  nonce, of \<open>D\<close> bytes of user data followed by \<open>P\<close> zero bytes. The last sixteen bytes
  are the GCM tag of that encryption. The block is handed to the module (after the
  circuit id on a client connection that has not sent its handshake), and the header
  decodes to \<open>S\<close>, \<open>D\<close>, \<open>P\<close> and \<open>F\<close>.\<close>

theorem emitted_block_layout:
  assumes "send_targeted5 s c D P F pay = Inr (0, s')"
  shows "\<exists>hc ct tag.
           send_hdr_crypt s
             [ucast (drop_bit 24 (send_seq s)), ucast (drop_bit 16 (send_seq s)),
              ucast (drop_bit 8 (send_seq s)), ucast (send_seq s),
              ucast (drop_bit 8 (of_nat D :: 16 word)), ucast (of_nat D :: 16 word),
              ucast (drop_bit 8 (of_nat P :: 16 word)), ucast (of_nat P :: 16 word),
              ucast F, 0, 0, 0, 0, 0, 0, 0] = Some hc
           \<and> length hc = 16
           \<and> send_crypt s hc []
                ((case pay of Null_payload \<Rightarrow> [] | Upstream_input \<Rightarrow> take D (xmit_pending s))
                 @ replicate P 0) = Some (ct, tag)
           \<and> length (case pay of Null_payload \<Rightarrow> [] | Upstream_input \<Rightarrow> take D (xmit_pending s)) = D
           \<and> length ct = D + P \<and> length tag = 16
           \<and> trace s' = trace s @
                [Steg_transmit c
                   ((if \<not> sent_handshake (conns s c) \<and> mode s \<noteq> LSN_SIMPLE_SERVER
                     then handshake_bytes (circuit_id s) else []) @ hc @ ct @ tag),
                 Block_sent c \<lparr>clear = header_bytes (send_seq s) (of_nat D) (of_nat P) F,
                               ciphr = hc\<rparr> (hc @ ct @ tag)]
           \<and> take 16 (hc @ ct @ tag) = hc
           \<and> take (D + P) (drop 16 (hc @ ct @ tag)) = ct
           \<and> drop (16 + D + P) (hc @ ct @ tag) = tag
           \<and> seqno \<lparr>clear = header_bytes (send_seq s) (of_nat D) (of_nat P) F, ciphr = hc\<rparr>
               = send_seq s
           \<and> dlen \<lparr>clear = header_bytes (send_seq s) (of_nat D) (of_nat P) F, ciphr = hc\<rparr> = D
           \<and> plen \<lparr>clear = header_bytes (send_seq s) (of_nat D) (of_nat P) F, ciphr = hc\<rparr> = P
           \<and> opcode \<lparr>clear = header_bytes (send_seq s) (of_nat D) (of_nat P) F, ciphr = hc\<rparr> = F"
proof -
  from send_targeted5_Inr[OF assms] obtain hc ct tag st st' where
    nr: "\<not> opcode_reserved F" and D: "D \<le> SECTION_LEN" and P: "P \<le> SECTION_LEN"
    and pl: "pay = Upstream_input \<and> D \<le> length (xmit_pending s) \<or> pay = Null_payload \<and> D = 0"
    and hc: "send_hdr_crypt s (header_bytes (send_seq s) (of_nat D) (of_nat P) F) = Some hc"
            "length hc = 16"
    and ct: "send_crypt s hc []
               ((case pay of Null_payload \<Rightarrow> [] | Upstream_input \<Rightarrow> take D (xmit_pending s))
                @ replicate P 0) = Some (ct, tag)" "length ct = D + P" "length tag = 16"
    and s': "s' = s\<lparr>conns := (conns s)
                          (c := (conns s c)\<lparr>steg := Some st', sent_handshake := True,
                                            must_send_pending := False\<rparr>),
                    send_seq := send_seq s + 1,
                    sent_fin := (sent_fin s \<or> F = op_FIN),
                    xmit_pending := (case pay of Null_payload \<Rightarrow> xmit_pending s
                                     | Upstream_input \<Rightarrow> drop D (xmit_pending s)),
                    trace := trace s @
                      [Steg_transmit c
                         ((if \<not> sent_handshake (conns s c) \<and> mode s \<noteq> LSN_SIMPLE_SERVER
                           then handshake_bytes (circuit_id s) else []) @ hc @ ct @ tag),
                       Block_sent c
                         \<lparr>clear = header_bytes (send_seq s) (of_nat D) (of_nat P) F, ciphr = hc\<rparr>
                         (hc @ ct @ tag)]\<rparr>"
    by auto
  let ?h = "\<lparr>clear = header_bytes (send_seq s) (of_nat D) (of_nat P) F, ciphr = hc\<rparr>"
  have a: "send_hdr_crypt s
             [ucast (drop_bit 24 (send_seq s)), ucast (drop_bit 16 (send_seq s)),
              ucast (drop_bit 8 (send_seq s)), ucast (send_seq s),
              ucast (drop_bit 8 (of_nat D :: 16 word)), ucast (of_nat D :: 16 word),
              ucast (drop_bit 8 (of_nat P :: 16 word)), ucast (of_nat P :: 16 word),
              ucast F, 0, 0, 0, 0, 0, 0, 0] = Some hc"
    using hc(1) by (simp only: header_bytes_layout)
  have l: "length (case pay of Null_payload \<Rightarrow> [] | Upstream_input \<Rightarrow> take D (xmit_pending s)) = D"
    using pl by (auto split: payload_ref.splits)
  have t: "trace s' = trace s @
                [Steg_transmit c ((if \<not> sent_handshake (conns s c) \<and> mode s \<noteq> LSN_SIMPLE_SERVER
                           then handshake_bytes (circuit_id s) else []) @ hc @ ct @ tag),
                 Block_sent c ?h (hc @ ct @ tag)]"
    by (simp add: s')
  have k: "take 16 (hc @ ct @ tag) = hc" "take (D + P) (drop 16 (hc @ ct @ tag)) = ct"
    "drop (16 + D + P) (hc @ ct @ tag) = tag"
    using hc(2) ct(2) by simp_all
  have f: "seqno ?h = send_seq s" "dlen ?h = D" "plen ?h = P" "opcode ?h = F"
    using D P nr
    by (simp_all add: seqno_header_bytes dlen_header_bytes plen_header_bytes opcode_header_bytes
        unat_of_nat16 SECTION_LEN_def opcode_legal_low del: and_numerals)
  from a hc(2) ct l t k f show ?thesis by blast
qed

lemma valid_header_bytes:
  "valid \<lparr>clear = header_bytes s d p f, ciphr = hc\<rparr> (ucast s)"
proof -
  let ?h = "\<lparr>clear = header_bytes s d p f, ciphr = hc\<rparr>"
  have c: "(ucast ((ucast (seqno ?h) :: 64 word) - ucast s) :: 32 word) = seqno ?h - s"
    by (simp add: ucast_diff_down ucast_down_ucast_id is_down)
  show ?thesis
    unfolding valid_def Let_def c
    by (simp add: or_eq_0_iff u32_hi_zero header_bytes_check seqno_header_bytes)
qed

lemma legal_opcodes: "\<not> opcode_reserved 0" "\<not> opcode_reserved 1" "\<not> opcode_reserved 2"
  by (simp_all add: opcode_reserved_def op_LAST_def op_RESERVED0_def op_STEG0_def
      word_le_nat_alt word_less_nat_alt)

lemmas send5_eval = send_targeted5_def block_header_enc_def legal_opcodes
      op_DAT_def op_FIN_def op_RST_def ecb_encrypt_def gcm_encrypt_def
      conn_send_def transmit_def nonce_def Let_def valid_def seqno_def header_bytes_def
      add_event_def handshake_bytes_def

lemma rep7: "replicate 7 x = [x, x, x, x, x, x, x]"
  by (simp add: numeral_eq_Suc)

lemma rep3: "replicate 3 x = [x, x, x]"
  by (simp add: numeral_eq_Suc)

theorem emitted_block_layout_witness:
  "\<exists>s'. send_targeted5 (toy_circuit\<lparr>send_seq := 0x01020304\<rparr>) 0 5 3 op_DAT Upstream_input
           = Inr (0, s')
        \<and> trace s' =
            [Steg_transmit 0
               ([0x5B, 0x58, 0x59, 0x5E, 0x5A, 0x5F, 0x5A, 0x59, 0x5A, 0x5A, 0x5A, 0x5A, 0x5A, 0x5A,
                 0x5A, 0x5A]
                @ [0x32, 0x31, 0x30, 0x37, 0x36, 0x33, 0x33, 0x33]
                @ [0x5B, 0x58, 0x59, 0x5E, 0x5A, 0x5F, 0x5A, 0x59, 0x5A, 0x5A, 0x5A, 0x5A, 0x5A,
                   0x5A, 0x5A, 0x5A]),
             Block_sent 0
               \<lparr>clear = [1, 2, 3, 4, 0, 5, 0, 3, 0, 0, 0, 0, 0, 0, 0, 0],
                ciphr = [0x5B, 0x58, 0x59, 0x5E, 0x5A, 0x5F, 0x5A, 0x59, 0x5A, 0x5A, 0x5A, 0x5A,
                         0x5A, 0x5A, 0x5A, 0x5A]\<rparr>
               ([0x5B, 0x58, 0x59, 0x5E, 0x5A, 0x5F, 0x5A, 0x59, 0x5A, 0x5A, 0x5A, 0x5A, 0x5A, 0x5A,
                 0x5A, 0x5A]
                @ [0x32, 0x31, 0x30, 0x37, 0x36, 0x33, 0x33, 0x33]
                @ [0x5B, 0x58, 0x59, 0x5E, 0x5A, 0x5F, 0x5A, 0x59, 0x5A, 0x5A, 0x5A, 0x5A, 0x5A,
                   0x5A, 0x5A, 0x5A])]"
proof -
  have "\<exists>s'. send_targeted5 (toy_circuit\<lparr>send_seq := 0x01020304\<rparr>) 0 5 3 op_DAT Upstream_input
           = Inr (0, s')"
    by (simp add: send5_eval toy_defs const_defs)
  then obtain s' where
    h: "send_targeted5 (toy_circuit\<lparr>send_seq := 0x01020304\<rparr>) 0 5 3 op_DAT Upstream_input
           = Inr (0, s')" by blast
  from emitted_block_layout [OF h] have
    "trace s' =
            [Steg_transmit 0
               ([0x5B, 0x58, 0x59, 0x5E, 0x5A, 0x5F, 0x5A, 0x59, 0x5A, 0x5A, 0x5A, 0x5A, 0x5A, 0x5A,
                 0x5A, 0x5A]
                @ [0x32, 0x31, 0x30, 0x37, 0x36, 0x33, 0x33, 0x33]
                @ [0x5B, 0x58, 0x59, 0x5E, 0x5A, 0x5F, 0x5A, 0x59, 0x5A, 0x5A, 0x5A, 0x5A, 0x5A,
                   0x5A, 0x5A, 0x5A]),
             Block_sent 0
               \<lparr>clear = [1, 2, 3, 4, 0, 5, 0, 3, 0, 0, 0, 0, 0, 0, 0, 0],
                ciphr = [0x5B, 0x58, 0x59, 0x5E, 0x5A, 0x5F, 0x5A, 0x59, 0x5A, 0x5A, 0x5A, 0x5A,
                         0x5A, 0x5A, 0x5A, 0x5A]\<rparr>
               ([0x5B, 0x58, 0x59, 0x5E, 0x5A, 0x5F, 0x5A, 0x59, 0x5A, 0x5A, 0x5A, 0x5A, 0x5A, 0x5A,
                 0x5A, 0x5A]
                @ [0x32, 0x31, 0x30, 0x37, 0x36, 0x33, 0x33, 0x33]
                @ [0x5B, 0x58, 0x59, 0x5E, 0x5A, 0x5F, 0x5A, 0x59, 0x5A, 0x5A, 0x5A, 0x5A, 0x5A,
                   0x5A, 0x5A, 0x5A])]"
    by (auto simp: toy_defs op_DAT_def header_bytes_def rep7 rep3)
  with h show ?thesis by blast
qed

lemma big: "x \<le> 65535 \<Longrightarrow> (65535::nat) < 18446744073709551616 - x"
  by linarith

lemma send_targeted2_Inr0:
  assumes "send_targeted2 s c blocksize = Inr (0, s')"
  shows "MIN_BLOCK_SIZE \<le> blocksize" and "blocksize \<le> MAX_BLOCK_SIZE"
    and "min (length (xmit_pending s)) SECTION_LEN \<le> blocksize - MIN_BLOCK_SIZE"
    and "send_targeted5 s c (min (length (xmit_pending s)) SECTION_LEN)
           (blocksize - MIN_BLOCK_SIZE - min (length (xmit_pending s)) SECTION_LEN)
           (if length (xmit_pending s) \<le> SECTION_LEN \<and> upstream_eof s \<and> \<not> sent_fin s
            then op_FIN else op_DAT)
           Upstream_input = Inr (0, s')"
proof -
  let ?av = "min (length (xmit_pending s)) SECTION_LEN"
  let ?f = "if length (xmit_pending s) \<le> SECTION_LEN \<and> upstream_eof s \<and> \<not> sent_fin s
            then op_FIN else op_DAT"
  from assms show b: "MIN_BLOCK_SIZE \<le> blocksize" "blocksize \<le> MAX_BLOCK_SIZE"
    unfolding send_targeted2_def by (auto split: if_splits)
  have av: "(if length (xmit_pending s) > SECTION_LEN then SECTION_LEN else length (xmit_pending s)) = ?av"
    by (simp add: min_def)
  have f: "(if length (xmit_pending s) > SECTION_LEN then op_DAT
            else if upstream_eof s \<and> \<not> sent_fin s then op_FIN else op_DAT) = ?f"
    by auto
  from b have s1: "size_sub blocksize MIN_BLOCK_SIZE = blocksize - MIN_BLOCK_SIZE"
    by (intro size_sub_le) (simp_all add: const_defs)
  from assms b have e: "send_targeted5 s c ?av (size_sub (blocksize - MIN_BLOCK_SIZE) ?av) ?f
           Upstream_input = Inr (0, s')"
    unfolding send_targeted2_def Let_def av f s1 by simp
  from send_targeted5_Inr[OF e] have "size_sub (blocksize - MIN_BLOCK_SIZE) ?av \<le> SECTION_LEN"
    by simp
  then have "size_sub (blocksize - MIN_BLOCK_SIZE) ?av \<le> 65535" by (simp add: SECTION_LEN_def)
  moreover from b have "blocksize - MIN_BLOCK_SIZE < 2 ^ 63" by (simp add: const_defs)
  moreover have "?av < 2 ^ 63" by (simp add: const_defs min_def)
  ultimately have k: "?av \<le> blocksize - MIN_BLOCK_SIZE \<and>
      size_sub (blocksize - MIN_BLOCK_SIZE) ?av = blocksize - MIN_BLOCK_SIZE - ?av"
    by (rule size_sub_small)
  then show "?av \<le> blocksize - MIN_BLOCK_SIZE" by simp
  from e k show "send_targeted5 s c ?av (blocksize - MIN_BLOCK_SIZE - ?av) ?f Upstream_input = Inr (0, s')"
    by simp
qed

text \<open>What \<open>send_targeted(conn, blocksize)\<close> has sent when it returns 0, with \<open>avail\<close>
  pending upstream bytes: \<open>blocksize\<close> lies between 32 and \<open>32 + 2 * 65535\<close> and leaves
  room for all of \<open>min(avail, 65535)\<close> bytes, that is \<open>min(avail, 65535) <= blocksize - 32\<close>;
  the block sent has total length \<open>blocksize\<close>, its data length is \<open>min(avail, 65535)\<close>, its
  padding length is \<open>blocksize - 32\<close> minus the data length, and its opcode is FIN exactly
  when the upstream has reported EOF, no FIN has been sent yet and the block carries all
  that is pending (so also its last byte); otherwise the opcode is DAT. The call never
  returns 0 with a block size that would cut the data short.\<close>

theorem send_targeted_block_fields:
  assumes "send_targeted2 s c blocksize = Inr (0, s')"
  shows "32 \<le> blocksize \<and> blocksize \<le> 32 + 2 * 65535 \<and>
         min (length (xmit_pending s)) 65535 \<le> blocksize - 32 \<and>
         (\<exists>hdr wire block.
            trace s' = trace s @ [Steg_transmit c wire, Block_sent c hdr block]
            \<and> length block = blocksize
            \<and> dlen hdr = min (length (xmit_pending s)) 65535
            \<and> plen hdr = blocksize - 32 - dlen hdr
            \<and> (opcode hdr = op_FIN \<longleftrightarrow>
                 upstream_eof s \<and> \<not> sent_fin s \<and> dlen hdr = length (xmit_pending s))
            \<and> (opcode hdr = op_FIN \<or> opcode hdr = op_DAT)
            \<and> xmit_pending s' = drop (dlen hdr) (xmit_pending s))"
proof -
  let ?av = "min (length (xmit_pending s)) SECTION_LEN"
  let ?p = "blocksize - MIN_BLOCK_SIZE - ?av"
  let ?f = "if length (xmit_pending s) \<le> SECTION_LEN \<and> upstream_eof s \<and> \<not> sent_fin s
            then op_FIN else op_DAT"
  note b = send_targeted2_Inr0(1,2)[OF assms]
  note le = send_targeted2_Inr0(3)[OF assms]
  note e = send_targeted2_Inr0(4)[OF assms]
  from send_targeted5_Inr[OF e] obtain hc ct tag where
    nr: "\<not> opcode_reserved ?f" and D: "?av \<le> SECTION_LEN" and P: "?p \<le> SECTION_LEN"
    and len: "length hc = 16" "length ct = ?av + ?p" "length tag = 16"
    and tr: "trace s' = trace s @
                [Steg_transmit c
                   ((if \<not> sent_handshake (conns s c) \<and> mode s \<noteq> LSN_SIMPLE_SERVER
                     then handshake_bytes (circuit_id s) else []) @ hc @ ct @ tag),
                 Block_sent c \<lparr>clear = header_bytes (send_seq s) (of_nat ?av) (of_nat ?p) ?f,
                               ciphr = hc\<rparr> (hc @ ct @ tag)]"
    by auto
  have d: "dlen \<lparr>clear = header_bytes (send_seq s) (of_nat ?av) (of_nat ?p) ?f, ciphr = hc\<rparr> = ?av"
    using D by (simp add: dlen_header_bytes unat_of_nat16 SECTION_LEN_def)
  have p: "plen \<lparr>clear = header_bytes (send_seq s) (of_nat ?av) (of_nat ?p) ?f, ciphr = hc\<rparr> = ?p"
    using P by (simp add: plen_header_bytes unat_of_nat16 SECTION_LEN_def)
  have f: "opcode \<lparr>clear = header_bytes (send_seq s) (of_nat ?av) (of_nat ?p) ?f, ciphr = hc\<rparr> = ?f"
    using opcode_legal_low[OF nr] by (simp only: opcode_header_bytes)
  let ?h = "\<lparr>clear = header_bytes (send_seq s) (of_nat ?av) (of_nat ?p) ?f, ciphr = hc\<rparr>"
  from send_targeted5_Inr[OF e] have x: "xmit_pending s' = drop ?av (xmit_pending s)"
    by auto
  have 1: "length (hc @ ct @ tag) = blocksize"
    using len le b by (simp add: const_defs)
  have 2: "dlen ?h = min (length (xmit_pending s)) 65535"
    unfolding d by (simp add: const_defs)
  from le have 7: "min (length (xmit_pending s)) 65535 \<le> blocksize - 32"
    by (simp add: const_defs)
  have 3: "plen ?h = blocksize - 32 - dlen ?h"
    using p d by (simp add: const_defs)
  have 4: "opcode ?h = op_FIN \<longleftrightarrow>
                 upstream_eof s \<and> \<not> sent_fin s \<and> dlen ?h = length (xmit_pending s)"
    unfolding f d by (auto simp: op_FIN_def op_DAT_def min_def)
  have 5: "opcode ?h = op_FIN \<or> opcode ?h = op_DAT"
    unfolding f by simp
  have 6: "xmit_pending s' = drop (dlen ?h) (xmit_pending s)"
    using x d by simp
  from b have 0: "32 \<le> blocksize \<and> blocksize \<le> 32 + 2 * 65535" by (simp add: const_defs)
  from 0 7 tr 1 2 3 4 5 6 show ?thesis by blast
qed

text \<open>What the previous theorem leaves open: when the block size leaves less room than
  \<open>min(avail, 65535)\<close>, the padding length computed by \<open>send_targeted(conn, blocksize)\<close>
  wraps around and the assertion \<open>p <= SECTION_LEN\<close> ends the process; no shortened block
  is sent.\<close>

lemma send_targeted5_assert_p:
  "p > SECTION_LEN \<Longrightarrow> send_targeted5 s c d p f pay = Inl Assertion_failure"
  by (simp add: send_targeted5_def)

theorem send_targeted_short_block_aborts:
  assumes "32 \<le> blocksize" and "blocksize \<le> 32 + 2 * 65535"
    and "blocksize - 32 < min (length (xmit_pending s)) 65535"
  shows "send_targeted2 s c blocksize = Inl Assertion_failure"
proof -
  let ?av = "min (length (xmit_pending s)) SECTION_LEN"
  have av: "(if length (xmit_pending s) > SECTION_LEN then SECTION_LEN else length (xmit_pending s)) = ?av"
    by (simp add: min_def)
  from assms have s1: "size_sub blocksize MIN_BLOCK_SIZE = blocksize - 32"
    using size_sub_le[of MIN_BLOCK_SIZE blocksize] by (simp add: const_defs)
  from assms have lt: "blocksize - 32 < ?av" by (simp add: const_defs)
  have "?av < 2 ^ 64" by (simp add: const_defs min_def)
  with lt have "size_sub (blocksize - 32) ?av = 2 ^ 64 - (?av - (blocksize - 32))"
    by (rule size_sub_gt)
  moreover have "?av - (blocksize - 32) \<le> 65535" unfolding SECTION_LEN_def by simp
  ultimately have "size_sub (blocksize - 32) ?av > SECTION_LEN"
    unfolding SECTION_LEN_def using big[of "min (length (xmit_pending s)) 65535 - (blocksize - 32)"] by simp
  then show ?thesis
    using assms unfolding send_targeted2_def Let_def av s1
    by (simp add: send_targeted5_assert_p const_defs)
qed

theorem send_targeted_block_fields_witness:
  "\<exists>s'. send_targeted2 (toy_circuit\<lparr>upstream_eof := True\<rparr>) 0 40 = Inr (0, s')
        \<and> (\<exists>hdr wire block.
              trace s' = [Steg_transmit 0 wire, Block_sent 0 hdr block]
              \<and> length block = 40 \<and> dlen hdr = 5 \<and> plen hdr = 3 \<and> opcode hdr = op_FIN
              \<and> xmit_pending s' = [])"
proof -
  have "\<exists>s'. send_targeted2 (toy_circuit\<lparr>upstream_eof := True\<rparr>) 0 40 = Inr (0, s')"
    by (simp add: send_targeted2_def size_sub_def send5_eval toy_defs const_defs)
  then obtain s' where
    h: "send_targeted2 (toy_circuit\<lparr>upstream_eof := True\<rparr>) 0 40 = Inr (0, s')" by blast
  from send_targeted_block_fields [OF h] have
    "\<exists>hdr wire block.
              trace s' = [Steg_transmit 0 wire, Block_sent 0 hdr block]
              \<and> length block = 40 \<and> dlen hdr = 5 \<and> plen hdr = 3 \<and> opcode hdr = op_FIN
              \<and> xmit_pending s' = []"
    by (auto simp: toy_defs)
  with h show ?thesis by blast
qed

theorem send_targeted_short_block_witness:
  "send_targeted2 toy_circuit 0 36 = Inl Assertion_failure"
  using send_targeted_short_block_aborts [of 36 toy_circuit 0]
  by (simp add: toy_defs)

section \<open>The send pass, the queue processor and the receive loop\<close>

text \<open>\<open>chop_conn_t::send()\<close>, for a connection attached to the circuit\<close>

definition conn_must_send :: "chop_circuit_t \<Rightarrow> nat \<Rightarrow> fatal + chop_circuit_t" where
  "conn_must_send s c =
     (let s1 = s\<lparr>conns := (conns s)(c := (conns s c)\<lparr>must_send_pending := False\<rparr>)\<rparr>
      in case steg (conns s1 c) of
           None \<Rightarrow> Inr (add_event (Conn_do_flush c) s1)
         | Some st \<Rightarrow>
             (case send_targeted1 s1 c of
                Inl e \<Rightarrow> Inl e
              | Inr (rc, s2) \<Rightarrow>
                  if rc \<noteq> 0 then Inr (add_event (Conn_do_flush c) s2) else Inr s2))"

fun check_conns :: "nat list \<Rightarrow> chop_circuit_t \<Rightarrow> fatal + chop_circuit_t" where
  "check_conns [] s = Inr s"
| "check_conns (c # cs) s =
     (case (if must_send_pending (conns s c) then conn_must_send s c else Inr s) of
        Inl e \<Rightarrow> Inl e
      | Inr s1 \<Rightarrow> check_conns cs (add_event (Conn_send_eof c) s1))"

definition check_for_eof :: "chop_circuit_t \<Rightarrow> fatal + (int \<times> chop_circuit_t)" where
  "check_for_eof s =
     (if sent_fin s \<and> received_fin s
      then (case check_conns (downstreams s) (add_event Circuit_disarm_flush_timer s) of
              Inl e \<Rightarrow> Inl e
            | Inr s1 \<Rightarrow> Inr (0, s1))
      else if mode s \<noteq> LSN_SIMPLE_SERVER then Inr (0, add_event Circuit_arm_flush_timer s)
      else Inr (0, s))"

lemma send_targeted2_pending:
  assumes "send_targeted2 s c b = Inr (rc, s1)" and "rc = 0"
  shows "xmit_pending s1 = drop (min (length (xmit_pending s)) SECTION_LEN) (xmit_pending s)"
proof -
  from assms have e: "send_targeted2 s c b = Inr (0, s1)" by simp
  from send_targeted5_Inr[OF send_targeted2_Inr0(4)[OF e]] show ?thesis by auto
qed

function send_loop :: "chop_circuit_t \<Rightarrow> fatal + (int \<times> chop_circuit_t)" where
  "send_loop s =
     (case pick_connection s (length (xmit_pending s)) of
        (None, blocksize) \<Rightarrow> Inr (0, s)
      | (Some target, blocksize) \<Rightarrow>
          (case send_targeted2 s target blocksize of
             Inl e \<Rightarrow> Inl e
           | Inr (rc, s1) \<Rightarrow>
               if rc \<noteq> 0 then Inr (-1, s1)
               else if length (xmit_pending s1) > 0 then send_loop s1
               else Inr (0, s1)))"
  by pat_completeness auto
termination
proof (relation "measure (\<lambda>s. length (xmit_pending s))")
  show "wf (measure (\<lambda>s. length (xmit_pending s)))" by simp
next
  fix s :: chop_circuit_t and x y target r rc s1
  assume "send_targeted2 s target y = Inr r" and "(rc, s1) = r" and "\<not> rc \<noteq> 0"
    and "0 < length (xmit_pending s1)"
  then have e: "send_targeted2 s target y = Inr (rc, s1)" and rc: "rc = 0" by simp_all
  from send_targeted2_pending[OF e rc] \<open>0 < length (xmit_pending s1)\<close>
  show "(s1, s) \<in> measure (\<lambda>s. length (xmit_pending s))"
    by (auto simp: SECTION_LEN_def min_def split: if_splits)
qed


text \<open>\<open>chop_circuit_t::send()\<close>\<close>

definition chop_send :: "chop_circuit_t \<Rightarrow> fatal + (int \<times> chop_circuit_t)" where
  "chop_send s =
     (let s0 = add_event Circuit_disarm_flush_timer s
      in if downstreams s0 = []
         then (if mode s0 \<noteq> LSN_SIMPLE_SERVER
               then Inr (0, add_event Circuit_reopen_downstreams s0)
               else Inr (0, add_event Circuit_arm_axe_timer s0))
         else (let avail0 = length (xmit_pending s0)
               in case send_loop s0 of
                    Inl e \<Rightarrow> Inl e
                  | Inr (rc, s1) \<Rightarrow>
                      if rc \<noteq> 0 then Inr (-1, s1)
                      else check_for_eof
                             (if avail0 > length (xmit_pending s1) then s1\<lparr>dead_cycles := 0\<rparr>
                              else s1\<lparr>dead_cycles := dead_cycles s1 + 1\<rparr>)))"

text \<open>\<open>chop_circuit_t::send_eof()\<close>\<close>

definition chop_send_eof :: "chop_circuit_t \<Rightarrow> fatal + (int \<times> chop_circuit_t)" where
  "chop_send_eof s = chop_send (s\<lparr>upstream_eof := True\<rparr>)"

text \<open>The local variables of \<open>process_queue\<close>.\<close>

record pq_locals =
  pq_count :: "32 word"
  pending_fin :: bool
  pending_error :: bool
  sent_error :: bool

text \<open>The \<open>switch\<close> on the opcode in the loop of \<open>process_queue\<close>, for a block with
  opcode \<open>f\<close> and data \<open>d\<close>.\<close>

definition process_switch ::
  "chop_circuit_t \<Rightarrow> opcode_t \<Rightarrow> byte list \<Rightarrow> pq_locals \<Rightarrow> chop_circuit_t \<times> pq_locals" where
  "process_switch s f d v =
     (if f = op_FIN \<and> received_fin s then (s, v\<lparr>pending_error := True\<rparr>)
      else if f = op_FIN \<or> f = op_DAT
      then (let v0 = (if f = op_FIN then v\<lparr>pending_fin := True\<rparr> else v)
            in if length d \<noteq> 0
               then (if received_fin s then (s, v0\<lparr>pending_error := True\<rparr>)
                     else if \<not> evbuffer_ok s then (s, v0\<lparr>pending_error := True\<rparr>)
                     else (s\<lparr>up_output := up_output s @ d\<rparr>, v0))
               else (s, v0))
      else if f = op_RST
      then (add_event Circuit_recv_eof s, v\<lparr>pending_error := True\<rparr>)
      else (s, v\<lparr>pending_error := True\<rparr>))"

text \<open>The body of the loop of \<open>process_queue\<close> for one block taken off the queue.\<close>

definition process_block ::
  "chop_circuit_t \<Rightarrow> opcode_t \<Rightarrow> byte list \<Rightarrow> pq_locals \<Rightarrow> fatal + (chop_circuit_t \<times> pq_locals)" where
  "process_block s f d v =
     (case process_switch s f d v of
        (s1, v1) \<Rightarrow>
          (let s2 = (if pending_fin v1 \<and> \<not> received_fin s1
                     then (add_event Circuit_recv_eof s1)\<lparr>received_fin := True\<rparr>
                     else s1)
           in if pending_error v1 \<and> \<not> sent_error v1
              then (if f \<noteq> op_RST \<and> f \<noteq> op_FIN
                    then (case send_special s2 op_RST Null_payload of
                            Inl e \<Rightarrow> Inl e
                          | Inr (rc, s3) \<Rightarrow>
                              Inr (s3, v1\<lparr>sent_error := True, pq_count := pq_count v1 + 1\<rparr>))
                    else Inr (s2, v1\<lparr>sent_error := True, pq_count := pq_count v1 + 1\<rparr>))
              else Inr (s2, v1\<lparr>pq_count := pq_count v1 + 1\<rparr>)))"

lemma process_switch_queue:
  "process_switch s f d v = (s1, v1) \<Longrightarrow> recv_queue s1 = recv_queue s"
  unfolding process_switch_def Let_def
  by (auto simp: add_event_def split: if_splits)

lemma send_special_queue:
  "send_special s f pay = Inr (rc, s') \<Longrightarrow> recv_queue s' = recv_queue s"
  unfolding send_special_def Let_def
  by (auto split: if_splits prod.splits option.splits dest!: send_targeted5_Inr)

lemma process_block_queue:
  assumes "process_block s f d v = Inr (s', v')"
  shows "recv_queue s' = recv_queue s"
proof -
  obtain s1 v1 where sw: "process_switch s f d v = (s1, v1)" by (metis surj_pair)
  note q1 = process_switch_queue[OF sw]
  from assms q1 show ?thesis
    unfolding process_block_def sw Let_def
    by (auto simp: add_event_def split: if_splits sum.splits dest!: send_special_queue)
qed

lemma remove_next_occupied:
  assumes "remove_next q = (blk, q')" and "data blk = Some d"
  shows "card {i. data (cbuf q' i) \<noteq> None} < card {i. data (cbuf q i) \<noteq> None}"
proof -
  let ?i = "ucast (next_to_process q) :: 8 word"
  from assms have occ: "data (cbuf q ?i) \<noteq> None"
    and q': "q' = q\<lparr>cbuf := (cbuf q)(?i := empty_elt), next_to_process := next_to_process q + 1\<rparr>"
    by (auto simp: remove_next_step empty_elt_def split: if_splits)
  have "{i. data (cbuf q' i) \<noteq> None} = {i. data (cbuf q i) \<noteq> None} - {?i}"
    by (auto simp: q' empty_elt_def)
  moreover have "?i \<in> {i. data (cbuf q i) \<noteq> None}" using occ by simp
  moreover have "finite {i. data (cbuf q i) \<noteq> None}" by simp
  ultimately show ?thesis
    by (metis card_Diff1_less)
qed

function process_queue_loop ::
  "chop_circuit_t \<Rightarrow> pq_locals \<Rightarrow> fatal + (chop_circuit_t \<times> pq_locals)" where
  "process_queue_loop s v =
     (case remove_next (recv_queue s) of
        (blk, q) \<Rightarrow>
          (case data blk of
             None \<Rightarrow> Inr (s, v)
           | Some d \<Rightarrow>
               (case process_block (s\<lparr>recv_queue := q\<rparr>) (op blk) d v of
                  Inl e \<Rightarrow> Inl e
                | Inr (s1, v1) \<Rightarrow> process_queue_loop s1 v1)))"
  by pat_completeness auto
termination
proof (relation "measure (\<lambda>(s, v). card {i. data (cbuf (recv_queue s) i) \<noteq> None})")
  show "wf (measure (\<lambda>(s, v). card {i. data (cbuf (recv_queue s) i) \<noteq> None}))" by simp
next
  fix s :: chop_circuit_t and v :: pq_locals and blk q d r s1 v1
  assume rn: "(blk, q) = remove_next (recv_queue s)" and d: "data blk = Some d"
    and pb: "process_block (s\<lparr>recv_queue := q\<rparr>) (op blk) d v = Inr r" and r: "(s1, v1) = r"
  from pb r have "recv_queue s1 = q" using process_block_queue[of "s\<lparr>recv_queue := q\<rparr>"] by auto
  with remove_next_occupied[OF rn[symmetric] d]
  show "((s1, v1), (s, v)) \<in> measure (\<lambda>(s, v). card {i. data (cbuf (recv_queue s) i) \<noteq> None})"
    by simp
qed

text \<open>\<open>chop_circuit_t::process_queue()\<close>\<close>

definition process_queue :: "chop_circuit_t \<Rightarrow> fatal + (int \<times> chop_circuit_t)" where
  "process_queue s =
     (case process_queue_loop s
             \<lparr>pq_count = 0, pending_fin = False, pending_error = False, sent_error = False\<rparr> of
        Inl e \<Rightarrow> Inl e
      | Inr (s1, v) \<Rightarrow>
          (let s2 = (if pq_count v > 0 then s1\<lparr>dead_cycles := 0\<rparr> else s1)
           in if sent_error v then Inr (-1, s2)
              else if length (xmit_pending s2) \<noteq> 0 \<or> (upstream_eof s2 \<and> \<not> sent_fin s2)
              then chop_send s2
              else check_for_eof s2))"

text \<open>The receive loop of \<open>chop_conn_t::recv()\<close>. One turn of the loop either leaves the
  loop, by \<open>break\<close> (result 0: the queue is processed next), by \<open>return -1\<close> or by an abort,
  or it has queued one block and the loop goes round again.\<close>

datatype loop_step = Leave "fatal + (int \<times> chop_circuit_t)" | Again chop_circuit_t

definition recv_block :: "chop_circuit_t \<Rightarrow> nat \<Rightarrow> loop_step" where
  "recv_block s c =
     (let pend = recv_pending (conns s c); avail = length pend
      in if avail = 0 then Leave (Inr (0, s))
         else if avail < MIN_BLOCK_SIZE then Leave (Inr (0, s))
         else (case block_header_dec pend (recv_hdr_crypt s) of
                 Inl e \<Rightarrow> Leave (Inl e)
               | Inr hdr \<Rightarrow>
                   if \<not> valid hdr (ucast (window (recv_queue s))) then Leave (Inr (-1, s))
                   else if avail < total_len hdr then Leave (Inr (0, s))
                   else (let body = take (total_len hdr - HEADER_LEN) (drop HEADER_LEN pend);
                             s1 = s\<lparr>conns := (conns s)
                                     (c := (conns s c)\<lparr>recv_pending := drop (total_len hdr) pend\<rparr>)\<rparr>
                         in case gcm_decrypt (recv_crypt s) body (nonce hdr) of
                              Inl e \<Rightarrow> Leave (Inl e)
                            | Inr None \<Rightarrow> Leave (Inr (-1, s1))
                            | Inr (Some decoded) \<Rightarrow>
                                if \<not> evbuffer_ok s then Leave (Inr (-1, s1))
                                else (case insert_blk (recv_queue s1) (seqno hdr) (opcode hdr)
                                             (take (dlen hdr) decoded) of
                                        (ok, q, freed) \<Rightarrow>
                                          if \<not> ok then Leave (Inr (-1, s1\<lparr>recv_queue := q\<rparr>))
                                          else Again (s1\<lparr>recv_queue := q\<rparr>)))))"

lemma recv_block_Again:
  assumes "recv_block s c = Again s1"
  shows "length (recv_pending (conns s1 c)) < length (recv_pending (conns s c))"
proof -
  let ?pend = "recv_pending (conns s c)"
  from assms have big: "\<not> length ?pend < MIN_BLOCK_SIZE"
    unfolding recv_block_def Let_def by (auto split: if_splits)
  from assms obtain hdr q where
    "s1 = s\<lparr>conns := (conns s)
               (c := (conns s c)\<lparr>recv_pending := drop (total_len hdr) ?pend\<rparr>),
            recv_queue := q\<rparr>"
    unfolding recv_block_def Let_def
    by (auto split: if_splits sum.splits option.splits prod.splits)
  with big show ?thesis by (simp add: total_len_def const_defs)
qed

function recv_loop :: "chop_circuit_t \<Rightarrow> nat \<Rightarrow> fatal + (int \<times> chop_circuit_t)" where
  "recv_loop s c = (case recv_block s c of Leave r \<Rightarrow> r | Again s1 \<Rightarrow> recv_loop s1 c)"
  by pat_completeness auto
termination
  by (relation "measure (\<lambda>(s, c). length (recv_pending (conns s c)))")
     (simp_all add: recv_block_Again)

declare recv_loop.simps [simp del]

text \<open>The circuit at the start of turn \<open>k\<close> of the loop, if the loop gets that far.\<close>

fun recv_turn :: "nat \<Rightarrow> chop_circuit_t \<Rightarrow> nat \<Rightarrow> chop_circuit_t option" where
  "recv_turn 0 s c = Some s"
| "recv_turn (Suc k) s c =
     (case recv_block s c of Leave r \<Rightarrow> None | Again s1 \<Rightarrow> recv_turn k s1 c)"

text \<open>What \<open>steg->receive(recv_pending)\<close> does to connection \<open>c\<close>: the module moves to
  state \<open>n\<close> and appends the bytes it extracted to \<open>recv_pending\<close>.\<close>

definition steg_receive ::
  "chop_circuit_t \<Rightarrow> nat \<Rightarrow> steg_t \<Rightarrow> nat \<Rightarrow> byte list \<Rightarrow> chop_circuit_t" where
  "steg_receive s c st n extracted =
     s\<lparr>conns := (conns s)
          (c := (conns s c)\<lparr>steg := Some (st\<lparr>steg_state := n\<rparr>),
                 recv_pending := recv_pending (conns s c) @ extracted\<rparr>)\<rparr>"

text \<open>\<open>chop_conn_t::recv()\<close> on a connection attached to the circuit. \<open>rcv\<close> is what the
  module's \<open>receive\<close> did: whether it succeeded, the module's next state, and the bytes it
  appended to \<open>recv_pending\<close>.\<close>

definition conn_recv ::
  "chop_circuit_t \<Rightarrow> nat \<Rightarrow> bool \<times> nat \<times> byte list \<Rightarrow> fatal + (int \<times> chop_circuit_t)" where
  "conn_recv s c rcv =
     (case steg (conns s c) of
        None \<Rightarrow> Inl Null_dereference
      | Some st \<Rightarrow>
          (case rcv of
             (ok, n, extracted) \<Rightarrow>
               (let s1 = steg_receive s c st n extracted
                in if \<not> ok then Inr (-1, s1)
                   else (case recv_loop s1 c of
                           Inl e \<Rightarrow> Inl e
                         | Inr (rc, s2) \<Rightarrow>
                             if rc \<noteq> 0 then Inr (-1, s2) else process_queue s2))))"

section \<open>Sequence numbers of the blocks sent\<close>

text \<open>The headers of the blocks a circuit has handed to its connections, in the order
  in which they were sent, and their sequence numbers.\<close>

fun sent_headers :: "event list \<Rightarrow> block_header list" where
  "sent_headers [] = []"
| "sent_headers (Block_sent c h b # es) = h # sent_headers es"
| "sent_headers (e # es) = sent_headers es"

definition sent_seqnos :: "event list \<Rightarrow> 32 word list" where
  "sent_seqnos tr = map seqno (sent_headers tr)"

text \<open>From \<open>s\<close> to \<open>s'\<close> the circuit has sent some number \<open>n\<close> of blocks: they carry the
  sequence numbers \<open>send_seq s\<close>, \<open>send_seq s + 1\<close>, ... (32-bit arithmetic), one after the
  other, and \<open>send_seq\<close> has advanced by \<open>n\<close>.\<close>

definition seq_advance :: "chop_circuit_t \<Rightarrow> chop_circuit_t \<Rightarrow> bool" where
  "seq_advance s s' \<longleftrightarrow>
     (\<exists>n. sent_seqnos (trace s') = sent_seqnos (trace s) @ map (\<lambda>i. send_seq s + of_nat i) [0..<n]
          \<and> send_seq s' = send_seq s + of_nat n)"

lemma sent_headers_append: "sent_headers (xs @ ys) = sent_headers xs @ sent_headers ys"
  by (induction xs rule: sent_headers.induct) simp_all

lemma sent_seqnos_append: "sent_seqnos (xs @ ys) = sent_seqnos xs @ sent_seqnos ys"
  by (simp add: sent_seqnos_def sent_headers_append)

lemma seq_advance_refl: "seq_advance s s"
  unfolding seq_advance_def by (rule exI[of _ 0]) simp

lemma seq_advance_same:
  "trace s' = trace s \<Longrightarrow> send_seq s' = send_seq s \<Longrightarrow> seq_advance s s'"
  unfolding seq_advance_def by (rule exI[of _ 0]) simp

lemma map_upt_add:
  "map f [0..<n + m] = map f [0..<n] @ map (\<lambda>i. f (n + i)) [0..<m]"
  by (induction m) simp_all

lemma seq_advance_trans:
  assumes "seq_advance s s'" and "seq_advance s' s''"
  shows "seq_advance s s''"
proof -
  from assms(1) obtain n where
    n: "sent_seqnos (trace s') = sent_seqnos (trace s) @ map (\<lambda>i. send_seq s + of_nat i) [0..<n]"
       "send_seq s' = send_seq s + of_nat n"
    unfolding seq_advance_def by blast
  from assms(2) obtain m where
    m: "sent_seqnos (trace s'') = sent_seqnos (trace s') @ map (\<lambda>i. send_seq s' + of_nat i) [0..<m]"
       "send_seq s'' = send_seq s' + of_nat m"
    unfolding seq_advance_def by blast
  have e: "map (\<lambda>i. send_seq s' + of_nat i) [0..<m]
             = map (\<lambda>i. send_seq s + of_nat (n + i)) [0..<m]"
    unfolding n(2) by (rule map_cong) (simp_all add: add.assoc)
  have "sent_seqnos (trace s'')
          = sent_seqnos (trace s) @ map (\<lambda>i. send_seq s + of_nat i) [0..<n + m]"
    unfolding m(1) n(1) e map_upt_add[of "\<lambda>i. send_seq s + of_nat i" n m] by simp
  moreover have "send_seq s'' = send_seq s + of_nat (n + m)"
    unfolding m(2) n(2) by (simp add: add.assoc)
  ultimately show ?thesis unfolding seq_advance_def by blast
qed

lemma seq_advance_event:
  "sent_headers [e] = [] \<Longrightarrow> seq_advance s (add_event e s)"
  unfolding seq_advance_def add_event_def
  by (rule exI[of _ 0]) (simp add: sent_seqnos_def sent_headers_append)

lemma seq_advance_one:
  assumes "trace s' = trace s @ [Steg_transmit c w, Block_sent c h b]"
    and "seqno h = send_seq s" and "send_seq s' = send_seq s + 1"
  shows "seq_advance s s'"
  unfolding seq_advance_def using assms
  by (intro exI[of _ 1]) (simp add: sent_seqnos_def sent_headers_append)

lemma send_targeted5_cases:
  assumes "send_targeted5 s c d p f pay = Inr (rc, s')"
  obtains (failed) "rc = -1" and "s' = s"
  | (sent) hc ct tag st' where "rc = 0"
      and "s' = s\<lparr>conns := (conns s)
                          (c := (conns s c)\<lparr>steg := Some st', sent_handshake := True,
                                            must_send_pending := False\<rparr>),
                    send_seq := send_seq s + 1,
                    sent_fin := (sent_fin s \<or> f = op_FIN),
                    xmit_pending := (case pay of Null_payload \<Rightarrow> xmit_pending s
                                     | Upstream_input \<Rightarrow> drop d (xmit_pending s)),
                    trace := trace s @
                      [Steg_transmit c
                         ((if \<not> sent_handshake (conns s c) \<and> mode s \<noteq> LSN_SIMPLE_SERVER
                           then handshake_bytes (circuit_id s) else []) @ hc @ ct @ tag),
                       Block_sent c
                         \<lparr>clear = header_bytes (send_seq s) (of_nat d) (of_nat p) f, ciphr = hc\<rparr>
                         (hc @ ct @ tag)]\<rparr>"
  using send_targeted5_Inr[OF assms]
  apply -
  apply (erule disjE)
   apply (erule conjE)
   apply (rule failed; assumption)
  apply (elim conjE exE)
  apply (rule sent; assumption)
  done

lemma send_targeted5_advance:
  assumes "send_targeted5 s c d p f pay = Inr (rc, s')"
  shows "seq_advance s s'"
  using assms
proof (cases rule: send_targeted5_cases)
  case failed
  then show ?thesis by (simp add: seq_advance_refl)
next
  case (sent hc ct tag st')
  let ?h = "\<lparr>clear = header_bytes (send_seq s) (of_nat d) (of_nat p) f, ciphr = hc\<rparr>"
  let ?w = "(if \<not> sent_handshake (conns s c) \<and> mode s \<noteq> LSN_SIMPLE_SERVER
             then handshake_bytes (circuit_id s) else []) @ hc @ ct @ tag"
  have t: "trace s' = trace s @ [Steg_transmit c ?w, Block_sent c ?h (hc @ ct @ tag)]"
    by (simp add: sent(2))
  have q: "send_seq s' = send_seq s + 1" by (simp add: sent(2))
  have h: "seqno ?h = send_seq s" by (rule seqno_header_bytes)
  from t h q show ?thesis by (rule seq_advance_one)
qed

lemma seq_advance_cong:
  assumes "trace t = trace s" "send_seq t = send_seq s" "trace t' = trace s'" "send_seq t' = send_seq s'"
  shows "seq_advance t t' \<longleftrightarrow> seq_advance s s'"
  unfolding seq_advance_def using assms by simp

lemma seq_advance_event_after:
  "sent_headers [e] = [] \<Longrightarrow> seq_advance s s' \<Longrightarrow> seq_advance s (add_event e s')"
  using seq_advance_trans[OF _ seq_advance_event] by blast

lemma send_targeted2_advance:
  "send_targeted2 s c b = Inr (rc, s') \<Longrightarrow> seq_advance s s'"
  unfolding send_targeted2_def Let_def
  by (auto split: if_splits dest: send_targeted5_advance)

lemma send_targeted1_advance:
  "send_targeted1 s c = Inr (rc, s') \<Longrightarrow> seq_advance s s'"
  unfolding send_targeted1_def Let_def
  by (auto split: if_splits option.splits dest: send_targeted2_advance simp: seq_advance_refl)

lemma send_special_advance:
  "send_special s f pay = Inr (rc, s') \<Longrightarrow> seq_advance s s'"
  unfolding send_special_def Let_def
  by (auto split: if_splits option.splits prod.splits dest: send_targeted5_advance
      simp: seq_advance_refl)

lemma conn_must_send_advance:
  assumes "conn_must_send s c = Inr s'"
  shows "seq_advance s s'"
proof -
  let ?s1 = "s\<lparr>conns := (conns s)(c := (conns s c)\<lparr>must_send_pending := False\<rparr>)\<rparr>"
  have a: "seq_advance s ?s1" by (rule seq_advance_same) simp_all
  have "seq_advance ?s1 s'"
    using assms unfolding conn_must_send_def Let_def
    by (auto split: option.splits sum.splits if_splits
        intro!: seq_advance_event seq_advance_event_after dest: send_targeted1_advance)
  with a show ?thesis by (rule seq_advance_trans)
qed

lemma check_conns_advance:
  "check_conns cs s = Inr s' \<Longrightarrow> seq_advance s s'"
proof (induction cs arbitrary: s)
  case Nil
  then show ?case by (simp add: seq_advance_refl)
next
  case (Cons c cs)
  from Cons.prems obtain s1 where
    s1: "(if must_send_pending (conns s c) then conn_must_send s c else Inr s) = Inr s1"
    and r: "check_conns cs (add_event (Conn_send_eof c) s1) = Inr s'"
    by (auto split: sum.splits)
  from s1 have "seq_advance s s1"
    by (auto split: if_splits dest: conn_must_send_advance simp: seq_advance_refl)
  then have "seq_advance s (add_event (Conn_send_eof c) s1)"
    by (intro seq_advance_event_after) simp_all
  from this Cons.IH[OF r] show ?case by (rule seq_advance_trans)
qed

lemma check_for_eof_advance:
  assumes "check_for_eof s = Inr (rc, s')"
  shows "seq_advance s s'"
proof (cases "sent_fin s \<and> received_fin s")
  case True
  with assms have "check_conns (downstreams s) (add_event Circuit_disarm_flush_timer s) = Inr s'"
    unfolding check_for_eof_def by (auto split: sum.splits)
  from seq_advance_event[of Circuit_disarm_flush_timer s] check_conns_advance[OF this]
  show ?thesis by (simp add: seq_advance_trans)
next
  case False
  with assms show ?thesis unfolding check_for_eof_def
    by (auto split: if_splits intro: seq_advance_event seq_advance_refl)
qed

lemma send_loop_advance:
  "send_loop s = Inr (rc, s') \<Longrightarrow> seq_advance s s'"
proof (induction s rule: send_loop.induct)
  case (1 s)
  show ?case
  proof (cases "pick_connection s (length (xmit_pending s))")
    case (Pair tg blocksize)
    show ?thesis
    proof (cases tg)
      case None
      with Pair "1.prems" show ?thesis
        by (subst (asm) send_loop.simps) (simp add: seq_advance_refl)
    next
      case (Some target)
      from "1.prems" Pair Some obtain rc1 s1 where
        st: "send_targeted2 s target blocksize = Inr (rc1, s1)"
        by (subst (asm) send_loop.simps) (auto split: sum.splits)
      note adv = send_targeted2_advance[OF st]
      show ?thesis
      proof (cases "rc1 = 0 \<and> 0 < length (xmit_pending s1)")
        case True
        with "1.prems" Pair Some st have r: "send_loop s1 = Inr (rc, s')"
          by (subst (asm) send_loop.simps) simp
        from True have "\<not> rc1 \<noteq> 0" "0 < length (xmit_pending s1)" by simp_all
        from adv "1.IH"[OF Pair[symmetric] Some st refl this r]
        show ?thesis by (rule seq_advance_trans)
      next
        case False
        with "1.prems" Pair Some st have "s' = s1"
          by (subst (asm) send_loop.simps) (auto split: if_splits)
        with adv show ?thesis by simp
      qed
    qed
  qed
qed

lemma chop_send_advance:
  assumes "chop_send s = Inr (rc, s')"
  shows "seq_advance s s'"
proof -
  let ?s0 = "add_event Circuit_disarm_flush_timer s"
  have a0: "seq_advance s ?s0" by (rule seq_advance_event) simp
  show ?thesis
  proof (cases "downstreams ?s0 = []")
    case True
    with assms have "s' = add_event Circuit_reopen_downstreams ?s0
                   \<or> s' = add_event Circuit_arm_axe_timer ?s0"
      unfolding chop_send_def Let_def by (auto split: if_splits)
    then show ?thesis
      using a0 by (auto intro!: seq_advance_event_after)
  next
    case False
    with assms obtain rc1 s1 where sl: "send_loop ?s0 = Inr (rc1, s1)"
      unfolding chop_send_def Let_def by (auto split: sum.splits)
    from a0 send_loop_advance[OF sl] have a1: "seq_advance s s1" by (rule seq_advance_trans)
    show ?thesis
    proof (cases "rc1 = 0")
      case nz: False
      with assms False sl have "s' = s1" unfolding chop_send_def Let_def by simp
      with a1 show ?thesis by simp
    next
      case True
      let ?s2 = "if length (xmit_pending ?s0) > length (xmit_pending s1) then s1\<lparr>dead_cycles := 0\<rparr>
                 else s1\<lparr>dead_cycles := dead_cycles s1 + 1\<rparr>"
      from assms False sl True have c: "check_for_eof ?s2 = Inr (rc, s')"
        unfolding chop_send_def Let_def by simp
      have "seq_advance s1 ?s2" by (rule seq_advance_same) simp_all
      from a1 this have "seq_advance s ?s2" by (rule seq_advance_trans)
      from this check_for_eof_advance[OF c] show ?thesis by (rule seq_advance_trans)
    qed
  qed
qed

lemma chop_send_eof_advance:
  assumes "chop_send_eof s = Inr (rc, s')"
  shows "seq_advance s s'"
proof -
  have "seq_advance s (s\<lparr>upstream_eof := True\<rparr>)" by (rule seq_advance_same) simp_all
  from this chop_send_advance[OF assms[unfolded chop_send_eof_def]]
  show ?thesis by (rule seq_advance_trans)
qed

lemma process_switch_advance:
  "process_switch s f d v = (s1, v1) \<Longrightarrow> seq_advance s s1"
  unfolding process_switch_def Let_def
  by (auto simp: seq_advance_refl split: if_splits
      intro: seq_advance_event seq_advance_same)

lemma process_block_advance:
  assumes "process_block s f d v = Inr (s', v')"
  shows "seq_advance s s'"
proof -
  obtain s1 v1 where sw: "process_switch s f d v = (s1, v1)" by (metis surj_pair)
  note a1 = process_switch_advance[OF sw]
  let ?s2 = "if pending_fin v1 \<and> \<not> received_fin s1
                then (add_event Circuit_recv_eof s1)\<lparr>received_fin := True\<rparr>
                else s1"
  have "seq_advance s1 ?s2"
    by (auto simp: seq_advance_refl add_event_def seq_advance_def sent_seqnos_def
        sent_headers_append intro!: exI[of _ 0])
  with a1 have a2: "seq_advance s ?s2" by (rule seq_advance_trans)
  from assms have "s' = ?s2 \<or> (\<exists>rc. send_special ?s2 op_RST Null_payload = Inr (rc, s'))"
    unfolding process_block_def sw Let_def
    by (auto split: if_splits sum.splits)
  then show ?thesis
  proof
    assume "s' = ?s2"
    with a2 show ?thesis by simp
  next
    assume "\<exists>rc. send_special ?s2 op_RST Null_payload = Inr (rc, s')"
    then obtain rc where "send_special ?s2 op_RST Null_payload = Inr (rc, s')" by blast
    from a2 send_special_advance[OF this] show ?thesis by (rule seq_advance_trans)
  qed
qed

lemma process_queue_loop_advance:
  "process_queue_loop s v = Inr (s', v') \<Longrightarrow> seq_advance s s'"
proof (induction s v rule: process_queue_loop.induct)
  case (1 s v)
  obtain blk q where rn: "remove_next (recv_queue s) = (blk, q)" by (metis surj_pair)
  show ?case
  proof (cases "data blk")
    case None
    with "1.prems" rn have "s' = s"
      by (subst (asm) process_queue_loop.simps) simp
    then show ?thesis by (simp add: seq_advance_refl)
  next
    case (Some d)
    from "1.prems" rn Some obtain s1 v1 where
      pb: "process_block (s\<lparr>recv_queue := q\<rparr>) (op blk) d v = Inr (s1, v1)"
      and r: "process_queue_loop s1 v1 = Inr (s', v')"
      by (subst (asm) process_queue_loop.simps) (auto split: sum.splits)
    have "seq_advance s (s\<lparr>recv_queue := q\<rparr>)" by (rule seq_advance_same) simp_all
    from this process_block_advance[OF pb] have "seq_advance s s1" by (rule seq_advance_trans)
    from this "1.IH"[OF rn[symmetric] Some pb refl r] show ?thesis by (rule seq_advance_trans)
  qed
qed

lemma process_queue_advance:
  assumes "process_queue s = Inr (rc, s')"
  shows "seq_advance s s'"
proof -
  from assms obtain s1 v where
    l: "process_queue_loop s \<lparr>pq_count = 0, pending_fin = False, pending_error = False,
                              sent_error = False\<rparr> = Inr (s1, v)"
    unfolding process_queue_def by (auto split: sum.splits)
  let ?s2 = "if pq_count v > 0 then s1\<lparr>dead_cycles := 0\<rparr> else s1"
  have "seq_advance s1 ?s2" by (rule seq_advance_same) simp_all
  with process_queue_loop_advance[OF l] have a: "seq_advance s ?s2" by (rule seq_advance_trans)
  from assms l have "s' = ?s2 \<or> chop_send ?s2 = Inr (rc, s') \<or> check_for_eof ?s2 = Inr (rc, s')"
    unfolding process_queue_def Let_def by (auto split: if_splits)
  then show ?thesis
    using a chop_send_advance check_for_eof_advance seq_advance_trans by blast
qed


section \<open>What the receive loop leaves alone\<close>

text \<open>What the receive loop leaves alone: the trace (so nothing is sent and the framework
  is not called), the sender's fields, the downstreams and every module.\<close>

definition recv_frame :: "chop_circuit_t \<Rightarrow> chop_circuit_t \<Rightarrow> bool" where
  "recv_frame s s' \<longleftrightarrow>
     trace s' = trace s \<and> send_seq s' = send_seq s \<and> sent_fin s' = sent_fin s
     \<and> received_fin s' = received_fin s \<and> downstreams s' = downstreams s
     \<and> xmit_pending s' = xmit_pending s \<and> up_output s' = up_output s
     \<and> (\<forall>k. steg (conns s' k) = steg (conns s k))"

lemma recv_frame_refl: "recv_frame s s"
  by (simp add: recv_frame_def)

lemma recv_frame_trans: "recv_frame s s1 \<Longrightarrow> recv_frame s1 s2 \<Longrightarrow> recv_frame s s2"
  by (simp add: recv_frame_def)

lemma recv_block_frame_Again:
  "recv_block s c = Again s1 \<Longrightarrow> recv_frame s s1"
  unfolding recv_block_def Let_def recv_frame_def
  by (auto split: if_splits sum.splits option.splits prod.splits)

lemma recv_block_frame_Leave:
  "recv_block s c = Leave (Inr (rc, s')) \<Longrightarrow> recv_frame s s' \<and> (rc = 0 \<or> rc = -1)"
  unfolding recv_block_def Let_def recv_frame_def
  by (auto split: if_splits sum.splits option.splits prod.splits)

lemma recv_loop_frame:
  "recv_loop s c = Inr (rc, s') \<Longrightarrow> recv_frame s s' \<and> (rc = 0 \<or> rc = -1)"
proof (induction s c rule: recv_loop.induct)
  case (1 s c)
  show ?case
  proof (cases "recv_block s c")
    case (Leave r)
    with "1.prems" have "recv_block s c = Leave (Inr (rc, s'))"
      by (subst (asm) recv_loop.simps) simp
    then show ?thesis by (rule recv_block_frame_Leave)
  next
    case (Again s1)
    with "1.prems" have "recv_loop s1 c = Inr (rc, s')"
      by (subst (asm) recv_loop.simps) simp
    from "1.IH"[OF Again this] recv_block_frame_Again[OF Again] show ?thesis
      by (auto intro: recv_frame_trans)
  qed
qed

lemma recv_turn_loop:
  "recv_turn k s c = Some s2 \<Longrightarrow> recv_loop s c = recv_loop s2 c \<and> recv_frame s s2"
proof (induction k arbitrary: s)
  case 0
  then show ?case by (simp add: recv_frame_refl)
next
  case (Suc k)
  then obtain s1 where a: "recv_block s c = Again s1" and t: "recv_turn k s1 c = Some s2"
    by (auto split: loop_step.splits)
  from a have "recv_loop s c = recv_loop s1 c" by (subst recv_loop.simps) simp
  with Suc.IH[OF t] recv_block_frame_Again[OF a] show ?case
    by (auto intro: recv_frame_trans)
qed

section \<open>The calls the framework makes on a circuit\<close>

text \<open>\<open>chop_circuit_t::add_downstream\<close>: the connection object as it is when it is
  attached; a connection that already has an upstream fails the assertion.\<close>

definition add_downstream :: "chop_circuit_t \<Rightarrow> nat \<Rightarrow> chop_conn_t \<Rightarrow> fatal + chop_circuit_t" where
  "add_downstream s c cn =
     (if c \<in> set (downstreams s) then Inl Assertion_failure
      else Inr (add_event Circuit_disarm_axe_timer
                  (s\<lparr>downstreams := downstreams s @ [c], conns := (conns s)(c := cn)\<rparr>)))"

text \<open>What the connection framework and the upstream do to a circuit: the entry points
  of the circuit and of its connections, and upstream bytes arriving in the input
  buffer. Return values go back to the framework.\<close>

datatype circuit_call =
    Call_send
  | Call_send_eof
  | Call_recv nat bool nat "byte list"
  | Call_must_send nat
  | Call_add_downstream nat chop_conn_t
  | Call_upstream_data "byte list"

definition drop_rc :: "fatal + (int \<times> chop_circuit_t) \<Rightarrow> fatal + chop_circuit_t" where
  "drop_rc r = (case r of Inl e \<Rightarrow> Inl e | Inr (rc, s) \<Rightarrow> Inr s)"

fun call :: "chop_circuit_t \<Rightarrow> circuit_call \<Rightarrow> fatal + chop_circuit_t" where
  "call s Call_send = drop_rc (chop_send s)"
| "call s Call_send_eof = drop_rc (chop_send_eof s)"
| "call s (Call_recv c ok n extracted) = drop_rc (conn_recv s c (ok, n, extracted))"
| "call s (Call_must_send c) = conn_must_send s c"
| "call s (Call_add_downstream c cn) = add_downstream s c cn"
| "call s (Call_upstream_data bs) = Inr (s\<lparr>xmit_pending := xmit_pending s @ bs\<rparr>)"

fun run :: "chop_circuit_t \<Rightarrow> circuit_call list \<Rightarrow> fatal + chop_circuit_t" where
  "run s [] = Inr s"
| "run s (x # xs) = (case call s x of Inl e \<Rightarrow> Inl e | Inr s1 \<Rightarrow> run s1 xs)"

lemma conn_recv_advance:
  assumes "conn_recv s c rcv = Inr (rc, s')"
  shows "seq_advance s s'"
proof -
  obtain ok n extracted where rcv: "rcv = (ok, n, extracted)" by (cases rcv)
  from assms obtain st where st: "steg (conns s c) = Some st"
    unfolding conn_recv_def by (auto split: option.splits)
  let ?s1 = "steg_receive s c st n extracted"
  have a: "seq_advance s ?s1" by (rule seq_advance_same) (simp_all add: steg_receive_def)
  show ?thesis
  proof (cases ok)
    case False
    with assms st rcv have "s' = ?s1" unfolding conn_recv_def Let_def by simp
    with a show ?thesis by simp
  next
    case True
    with assms st rcv obtain rc1 s2 where rl: "recv_loop ?s1 c = Inr (rc1, s2)"
      unfolding conn_recv_def Let_def by (auto split: sum.splits)
    from recv_loop_frame[OF rl] have "seq_advance ?s1 s2"
      by (intro seq_advance_same) (simp_all add: recv_frame_def)
    with a have a2: "seq_advance s s2" by (rule seq_advance_trans)
    from assms st rcv True rl have "s' = s2 \<or> process_queue s2 = Inr (rc, s')"
      unfolding conn_recv_def Let_def by (auto split: if_splits)
    with a2 process_queue_advance seq_advance_trans show ?thesis by blast
  qed
qed

lemma call_advance: "call s x = Inr s' \<Longrightarrow> seq_advance s s'"
proof (cases x)
  case Call_send
  assume "call s x = Inr s'"
  with Call_send show ?thesis
    by (auto simp: drop_rc_def split: sum.splits dest: chop_send_advance)
next
  case Call_send_eof
  assume "call s x = Inr s'"
  with Call_send_eof show ?thesis
    by (auto simp: drop_rc_def split: sum.splits dest: chop_send_eof_advance)
next
  case (Call_recv c ok n ex)
  assume "call s x = Inr s'"
  with Call_recv show ?thesis
    by (auto simp: drop_rc_def split: sum.splits dest: conn_recv_advance)
next
  case (Call_must_send c)
  assume "call s x = Inr s'"
  with Call_must_send show ?thesis by (auto dest: conn_must_send_advance)
next
  case (Call_add_downstream c cn)
  assume "call s x = Inr s'"
  with Call_add_downstream show ?thesis
    by (auto simp: add_downstream_def add_event_def split: if_splits
        intro!: seq_advance_same[of _ s] simp: seq_advance_def sent_seqnos_def sent_headers_append)
next
  case (Call_upstream_data bs)
  assume "call s x = Inr s'"
  with Call_upstream_data show ?thesis by (auto intro: seq_advance_same)
qed

lemma run_advance: "run s xs = Inr s' \<Longrightarrow> seq_advance s s'"
proof (induction xs arbitrary: s)
  case Nil
  then show ?case by (simp add: seq_advance_refl)
next
  case (Cons x xs)
  from Cons.prems obtain s1 where c: "call s x = Inr s1" and r: "run s1 xs = Inr s'"
    by (auto split: sum.splits)
  from call_advance[OF c] Cons.IH[OF r] show ?case by (rule seq_advance_trans)
qed

section \<open>The sequence number over the life of a circuit\<close>

text \<open>Circuits like the small concrete one whose upstream has nothing to send: a pass of
  \<open>send()\<close> on such a circuit sends one block of chaff on connection 0.\<close>

definition idle_like :: "chop_circuit_t \<Rightarrow> bool" where
  "idle_like s \<longleftrightarrow>
     downstreams s = [0, 1, 2]
     \<and> (\<exists>k. steg (conns s 0) = Some \<lparr>steg_state = k, room_of = (\<lambda>n. 40),
                                      transmit_of = (\<lambda>n b. Some (Suc n))\<rparr>)
     \<and> steg (conns s 1) = Some (toy_steg 100) \<and> steg (conns s 2) = None
     \<and> mode s = LSN_SIMPLE_SERVER \<and> xmit_pending s = [] \<and> evbuffer_ok s
     \<and> send_hdr_crypt s = toy_ecb \<and> send_crypt s = toy_gcm_enc
     \<and> \<not> sent_fin s \<and> \<not> upstream_eof s"

lemma idle_pick:
  assumes "idle_like s"
  shows "pick_connection s 0 = (Some 0, 32)"
  using assms unfolding idle_like_def
  by (auto simp: pick_connection_def const_defs clamp_room_def transmit_room_def toy_steg_def)

text \<open>The header of a block of chaff with sequence number \<open>sq\<close>, under the header cipher
  of the small circuit.\<close>

definition chaff_header :: "32 word \<Rightarrow> block_header" where
  "chaff_header sq = \<lparr>clear = header_bytes sq 0 0 op_DAT,
                       ciphr = map (\<lambda>b. b XOR 0x5A) (header_bytes sq 0 0 op_DAT)\<rparr>"

text \<open>From \<open>s\<close> to \<open>s'\<close> one block of chaff has been sent, with the sequence number
  \<open>send_seq s\<close>.\<close>

definition emits_chaff :: "chop_circuit_t \<Rightarrow> chop_circuit_t \<Rightarrow> bool" where
  "emits_chaff s s' \<longleftrightarrow>
     idle_like s'
     \<and> sent_headers (trace s') = sent_headers (trace s) @ [chaff_header (send_seq s)]
     \<and> send_seq s' = send_seq s + 1"

lemma idle_send5:
  assumes "idle_like s"
  shows "\<exists>s'. send_targeted5 s 0 0 0 op_DAT Upstream_input = Inr (0, s') \<and> emits_chaff s s'"
  using assms unfolding idle_like_def emits_chaff_def chaff_header_def
  by (auto simp: send_targeted5_def block_header_enc_def legal_opcodes op_DAT_def op_FIN_def
      ecb_encrypt_def gcm_encrypt_def conn_send_def transmit_def nonce_def Let_def
      valid_header_bytes length_header_bytes add_event_def sent_headers_append
      toy_ecb_def toy_gcm_enc_def toy_steg_def const_defs)

lemma idle_send2:
  assumes "idle_like s"
  shows "\<exists>s'. send_targeted2 s 0 32 = Inr (0, s') \<and> emits_chaff s s'"
proof -
  have z: "size_sub (size_sub 32 MIN_BLOCK_SIZE) 0 = 0"
    by (simp add: size_sub_def const_defs)
  from assms have "send_targeted2 s 0 32 = send_targeted5 s 0 0 0 op_DAT Upstream_input"
    unfolding send_targeted2_def Let_def idle_like_def
    by (simp add: z) (simp add: const_defs)
  with idle_send5[OF assms] show ?thesis by simp
qed

lemma idle_send_loop:
  assumes "idle_like s"
  shows "\<exists>s'. send_loop s = Inr (0, s') \<and> emits_chaff s s'"
proof -
  from assms have xp: "xmit_pending s = []" by (simp add: idle_like_def)
  from idle_send2[OF assms] obtain s' where
    s2: "send_targeted2 s 0 32 = Inr (0, s')" and il: "emits_chaff s s'"
    by blast
  from il have "xmit_pending s' = []" by (simp add: idle_like_def emits_chaff_def)
  with s2 idle_pick[OF assms] xp have "send_loop s = Inr (0, s')"
    by (subst send_loop.simps) simp
  with il show ?thesis by blast
qed

lemma idle_like_frame:
  "idle_like s \<Longrightarrow> idle_like (s\<lparr>dead_cycles := x\<rparr>)"
  "idle_like s \<Longrightarrow> idle_like (add_event e s)"
  unfolding idle_like_def add_event_def by simp_all

lemma idle_chop_send:
  assumes "idle_like s"
  shows "\<exists>s'. chop_send s = Inr (0, s') \<and> emits_chaff s s'"
proof -
  let ?s0 = "add_event Circuit_disarm_flush_timer s"
  from assms have i0: "idle_like ?s0" by (rule idle_like_frame)
  have l0: "sent_headers (trace ?s0) = sent_headers (trace s)" "send_seq ?s0 = send_seq s"
    by (simp_all add: add_event_def sent_headers_append)
  from idle_send_loop[OF i0] obtain s1 where
    sl: "send_loop ?s0 = Inr (0, s1)" and e1: "emits_chaff ?s0 s1"
    by blast
  let ?s2 = "s1\<lparr>dead_cycles := dead_cycles s1 + 1\<rparr>"
  from e1 have i1: "idle_like s1" by (simp add: emits_chaff_def)
  then have i2: "idle_like ?s2" by (rule idle_like_frame)
  from i0 i1 have x: "xmit_pending ?s0 = []" "xmit_pending s1 = []" "downstreams ?s0 \<noteq> []"
    by (simp_all add: idle_like_def)
  from i2 have "check_for_eof ?s2 = Inr (0, ?s2)"
    by (simp add: check_for_eof_def idle_like_def)
  with sl x have "chop_send s = Inr (0, ?s2)"
    unfolding chop_send_def Let_def by simp
  moreover from e1 i2 l0 have "emits_chaff s ?s2" by (simp add: emits_chaff_def)
  ultimately show ?thesis by blast
qed

lemma map_upt_Suc_shift: "map f [0..<Suc n] = f 0 # map (\<lambda>i. f (Suc i)) [0..<n]"
  by (simp only: map_upt_Suc)

lemma idle_run:
  "idle_like s \<Longrightarrow>
     \<exists>s'. run s (replicate n Call_send) = Inr s' \<and> idle_like s'
          \<and> sent_headers (trace s')
              = sent_headers (trace s) @ map (\<lambda>i. chaff_header (send_seq s + of_nat i)) [0..<n]
          \<and> send_seq s' = send_seq s + of_nat n"
proof (induction n arbitrary: s)
  case 0
  then show ?case by simp
next
  case (Suc n)
  from idle_chop_send[OF Suc.prems] obtain s1 where
    c: "chop_send s = Inr (0, s1)" and e: "emits_chaff s s1"
    by blast
  from e have i: "idle_like s1"
    and h1: "sent_headers (trace s1) = sent_headers (trace s) @ [chaff_header (send_seq s)]"
    and q1: "send_seq s1 = send_seq s + 1" by (simp_all add: emits_chaff_def)
  from Suc.IH[OF i] obtain s' where
    r: "run s1 (replicate n Call_send) = Inr s'" and i': "idle_like s'"
    and h': "sent_headers (trace s')
              = sent_headers (trace s1) @ map (\<lambda>i. chaff_header (send_seq s1 + of_nat i)) [0..<n]"
    and q': "send_seq s' = send_seq s1 + of_nat n"
    by blast
  from c r have "run s (replicate (Suc n) Call_send) = Inr s'" by (simp add: drop_rc_def)
  moreover from h' h1 q1
  have "sent_headers (trace s')
          = sent_headers (trace s) @ map (\<lambda>i. chaff_header (send_seq s + of_nat i)) [0..<Suc n]"
    unfolding map_upt_Suc_shift[of "\<lambda>i. chaff_header (send_seq s + of_nat i)"]
    by (simp add: add.assoc)
  moreover from q' q1 have "send_seq s' = send_seq s + of_nat (Suc n)" by simp
  ultimately show ?case using i' by blast
qed

text \<open>A new server-side circuit with the stand-in ciphers, and the calls that attach the
  three connections of the small circuit to it.\<close>

definition toy_setup :: "circuit_call list" where
  "toy_setup = [Call_add_downstream 0 (toy_conn (Some (toy_steg 40))),
                Call_add_downstream 1 (toy_conn (Some (toy_steg 100))),
                Call_add_downstream 2 (toy_conn None)]"

definition toy_new :: chop_circuit_t where
  "toy_new = chop_circuit_new LSN_SIMPLE_SERVER 1 toy_gcm_enc toy_ecb toy_gcm_dec toy_ecb"

lemma run_append:
  "run s (xs @ ys) = (case run s xs of Inl e \<Rightarrow> Inl e | Inr s1 \<Rightarrow> run s1 ys)"
  by (induction xs arbitrary: s) (simp_all split: sum.splits)

lemma toy_setup_idle:
  "\<exists>s0. run toy_new toy_setup = Inr s0 \<and> idle_like s0
        \<and> sent_headers (trace s0) = [] \<and> send_seq s0 = 0"
  by (simp add: toy_setup_def toy_new_def add_downstream_def add_event_def idle_like_def
      toy_defs)

lemma toy_run:
  "\<exists>t. run toy_new (toy_setup @ replicate n Call_send) = Inr t
       \<and> sent_headers (trace t) = map (\<lambda>i. chaff_header (of_nat i)) [0..<n]
       \<and> send_seq t = of_nat n"
proof -
  from toy_setup_idle obtain s0 where
    r0: "run toy_new toy_setup = Inr s0" and i0: "idle_like s0"
    and h0: "sent_headers (trace s0) = []" and q0: "send_seq s0 = 0" by blast
  from idle_run[OF i0, of n] obtain t where
    "run s0 (replicate n Call_send) = Inr t"
    "sent_headers (trace t)
       = sent_headers (trace s0) @ map (\<lambda>i. chaff_header (send_seq s0 + of_nat i)) [0..<n]"
    "send_seq t = send_seq s0 + of_nat n" by blast
  with r0 h0 q0 show ?thesis by (simp add: run_append)
qed

lemma toy_run_nth:
  assumes "i < n"
  shows "\<not> isl (run toy_new (toy_setup @ replicate n Call_send))"
    and "length (sent_headers (trace (projr (run toy_new (toy_setup @ replicate n Call_send))))) = n"
    and "sent_headers (trace (projr (run toy_new (toy_setup @ replicate n Call_send)))) ! i
           = chaff_header (of_nat i)"
proof -
  from toy_run[of n] obtain t where
    r: "run toy_new (toy_setup @ replicate n Call_send) = Inr t"
    and h: "sent_headers (trace t) = map (\<lambda>i. chaff_header (of_nat i)) [0..<n]" by blast
  from r show "\<not> isl (run toy_new (toy_setup @ replicate n Call_send))" by simp
  from r h show
    "length (sent_headers (trace (projr (run toy_new (toy_setup @ replicate n Call_send))))) = n"
    by simp
  from r h assms show
    "sent_headers (trace (projr (run toy_new (toy_setup @ replicate n Call_send)))) ! i
       = chaff_header (of_nat i)" by simp
qed

lemma of_nat_32_eq_iff:
  assumes "i \<le> j"
  shows "(of_nat i :: 32 word) = of_nat j \<longleftrightarrow> 2 ^ 32 dvd j - i"
proof -
  have "(of_nat i :: 32 word) = of_nat j \<longleftrightarrow> j mod 2 ^ 32 = i mod 2 ^ 32"
    by (auto simp: word_of_nat_eq_iff take_bit_eq_mod)
  also from assms have "\<dots> \<longleftrightarrow> 2 ^ 32 dvd j - i" by (rule mod_eq_dvd_iff_nat)
  finally show ?thesis .
qed

lemma seq_advance_from_zero:
  assumes "seq_advance s t" and "trace s = []" and "send_seq s = 0"
  shows "sent_seqnos (trace t) = map of_nat [0..<length (sent_seqnos (trace t))]"
    and "send_seq t = of_nat (length (sent_seqnos (trace t)))"
proof -
  from assms obtain n where
    n: "sent_seqnos (trace t) = map (\<lambda>i. of_nat i) [0..<n]" "send_seq t = of_nat n"
    unfolding seq_advance_def by (auto simp: sent_seqnos_def)
  then have "length (sent_seqnos (trace t)) = n" by simp
  with n show "sent_seqnos (trace t) = map of_nat [0..<length (sent_seqnos (trace t))]"
    and "send_seq t = of_nat (length (sent_seqnos (trace t)))" by simp_all
qed

text \<open>The sequence numbers of a circuit over its life. A new circuit has \<open>send_seq = 0\<close>.
  Whatever the framework then calls (\<open>send\<close>, \<open>send_eof\<close>, \<open>recv\<close> on a connection, a
  connection's must-send timer, \<open>add_downstream\<close>, upstream data arriving), as long as the
  process does not abort: the blocks sent carry the sequence numbers 0, 1, 2, ... modulo
  \<open>2^32\<close> in the order in which they are sent, \<open>send_seq\<close> is the number of blocks sent so
  far modulo \<open>2^32\<close> (each block takes its number from \<open>send_seq\<close>, each block sent adds one
  to it and nothing else changes it), and two of the blocks carry the same sequence
  number exactly when their positions differ by a multiple of \<open>2^32\<close>.\<close>

theorem send_seq_counts_emitted_blocks:
  assumes "run (chop_circuit_new m cid se sh re rh) calls = Inr t"
  shows "send_seq (chop_circuit_new m cid se sh re rh) = 0
         \<and> sent_seqnos (trace t) = map of_nat [0..<length (sent_seqnos (trace t))]
         \<and> send_seq t = of_nat (length (sent_seqnos (trace t)))
         \<and> (\<forall>i j. i < j \<and> j < length (sent_seqnos (trace t)) \<longrightarrow>
               (sent_seqnos (trace t) ! i = sent_seqnos (trace t) ! j
                  \<longleftrightarrow> 2 ^ 32 dvd j - i))"
proof -
  let ?n = "length (sent_seqnos (trace t))"
  have z: "trace (chop_circuit_new m cid se sh re rh) = []"
    "send_seq (chop_circuit_new m cid se sh re rh) = 0"
    by (simp_all add: chop_circuit_new_def)
  from run_advance[OF assms] have a: "seq_advance (chop_circuit_new m cid se sh re rh) t" .
  from seq_advance_from_zero[OF a z]
  have l: "sent_seqnos (trace t) = map of_nat [0..<?n]" and q: "send_seq t = of_nat ?n"
    by simp_all
  have "sent_seqnos (trace t) ! i = sent_seqnos (trace t) ! j \<longleftrightarrow> 2 ^ 32 dvd j - i"
    if "i < j" "j < ?n" for i j
  proof -
    from that have "i < ?n" by simp
    with l have "sent_seqnos (trace t) ! i = of_nat i"
      by (metis add.left_neutral nth_map_upt minus_nat.diff_0)
    moreover from that l have "sent_seqnos (trace t) ! j = of_nat j"
      by (metis add.left_neutral nth_map_upt minus_nat.diff_0)
    ultimately show ?thesis using of_nat_32_eq_iff[of i j] that by simp
  qed
  with z l q show ?thesis by blast
qed

theorem send_seq_counts_emitted_blocks_witness:
  "\<exists>t. run (chop_circuit_new LSN_SIMPLE_SERVER 1 toy_gcm_enc toy_ecb toy_gcm_dec toy_ecb)
            (toy_setup @ [Call_send, Call_send, Call_send]) = Inr t
       \<and> sent_seqnos (trace t) = [0, 1, 2] \<and> send_seq t = 3
       \<and> sent_seqnos (trace t) ! 0 \<noteq> sent_seqnos (trace t) ! 2"
proof -
  from toy_run[of 3] obtain t where
    r: "run toy_new (toy_setup @ replicate 3 Call_send) = Inr t"
    and h: "sent_headers (trace t) = map (\<lambda>i. chaff_header (of_nat i)) [0..<3]" by blast
  have e: "replicate 3 Call_send = [Call_send, Call_send, Call_send]"
    by (simp add: numeral_3_eq_3)
  from h have len: "length (sent_seqnos (trace t)) = 3" by (simp add: sent_seqnos_def)
  from r e have r': "run (chop_circuit_new LSN_SIMPLE_SERVER 1 toy_gcm_enc toy_ecb toy_gcm_dec toy_ecb)
            (toy_setup @ [Call_send, Call_send, Call_send]) = Inr t"
    by (simp add: toy_new_def)
  have u: "[0..<3] = [0, 1, 2]" by (simp add: upt_rec)
  from send_seq_counts_emitted_blocks[OF r'] len
  have "sent_seqnos (trace t) = map of_nat [0..<3]" "send_seq t = of_nat 3" by simp_all
  with r' u show ?thesis by simp
qed

text \<open>C8. \<open>send_seq\<close> starts at 0, each block sent carries the value \<open>send_seq\<close> has when
  it is sent, each block sent adds one to it and nothing else changes it (the previous
  theorem). The conclusion that no two blocks sent under the same keys share a sequence
  number does not follow: \<open>send_seq\<close> is a 32-bit counter, \<open>send_seq++\<close> wraps, and nothing
  in the chopper rekeys or stops the circuit first. On a new circuit with the three
  connections attached and no upstream data, 4294967297 passes of \<open>send()\<close> send 4294967297
  blocks of chaff; the first and the last carry the same sequence number and the same
  header ciphertext, which is the nonce of the authenticated encryption, under the same
  keys.\<close>

theorem send_seq_wraps_after_2_32_blocks:
  "\<not> isl (run toy_new (toy_setup @ replicate 4294967297 Call_send))
   \<and> length (sent_headers (trace (projr
        (run toy_new (toy_setup @ replicate 4294967297 Call_send))))) = 4294967297
   \<and> seqno (sent_headers (trace (projr
        (run toy_new (toy_setup @ replicate 4294967297 Call_send)))) ! 0)
     = seqno (sent_headers (trace (projr
        (run toy_new (toy_setup @ replicate 4294967297 Call_send)))) ! 4294967296)
   \<and> nonce (sent_headers (trace (projr
        (run toy_new (toy_setup @ replicate 4294967297 Call_send)))) ! 0)
     = nonce (sent_headers (trace (projr
        (run toy_new (toy_setup @ replicate 4294967297 Call_send)))) ! 4294967296)"
proof -
  have w: "(of_nat 4294967296 :: 32 word) = of_nat 0" by simp
  have a: "(0::nat) < 4294967297" and b: "(4294967296::nat) < 4294967297" by simp_all
  note x = toy_run_nth[OF a] and y = toy_run_nth(3)[OF b]
  show ?thesis
  proof (intro conjI)
    show "\<not> isl (run toy_new (toy_setup @ replicate 4294967297 Call_send))" by (rule x(1))
  qed (simp_all only: x(2) x(3) y w)
qed

section \<open>Protocol errors in the receive loop\<close>

lemma insert_blk_occupied:
  "data (cbuf q (ucast sq)) \<noteq> None \<Longrightarrow> insert_blk q sq f d = (False, q, [d])"
  unfolding insert_blk_def window_def Let_def slot_of_seq by simp

lemma recv_block_invalid:
  assumes "MIN_BLOCK_SIZE \<le> length (recv_pending (conns s c))"
    and "block_header_dec (recv_pending (conns s c)) (recv_hdr_crypt s) = Inr hdr"
    and "\<not> valid hdr (ucast (window (recv_queue s)))"
  shows "recv_block s c = Leave (Inr (-1, s))"
  using assms unfolding recv_block_def Let_def by (auto simp: const_defs)

lemma recv_block_duplicate:
  assumes "MIN_BLOCK_SIZE \<le> length (recv_pending (conns s c))"
    and "block_header_dec (recv_pending (conns s c)) (recv_hdr_crypt s) = Inr hdr"
    and "valid hdr (ucast (window (recv_queue s)))"
    and "total_len hdr \<le> length (recv_pending (conns s c))"
    and "gcm_decrypt (recv_crypt s)
           (take (total_len hdr - HEADER_LEN) (drop HEADER_LEN (recv_pending (conns s c))))
           (nonce hdr) = Inr (Some decoded)"
    and "evbuffer_ok s"
    and "data (cbuf (recv_queue s) (ucast (seqno hdr))) \<noteq> None"
  shows "recv_block s c =
           Leave (Inr (-1, s\<lparr>conns := (conns s)
                    (c := (conns s c)\<lparr>recv_pending :=
                            drop (total_len hdr) (recv_pending (conns s c))\<rparr>)\<rparr>))"
  using assms unfolding recv_block_def Let_def
  by (auto simp: const_defs insert_blk_occupied)


text \<open>A block as the peer of the small circuit would send it: sequence number 0, one byte
  of data (0x41), no padding, opcode DAT.\<close>

definition toy_block :: "byte list" where
  "toy_block = map (\<lambda>b. b XOR 0x5A) (header_bytes 0 1 0 op_DAT) @ [0x72]
               @ map (\<lambda>b. b XOR 0x5A) (header_bytes 0 1 0 op_DAT)"

lemmas recv_eval = recv_block_def block_header_dec_def ecb_decrypt_def valid_def seqno_def
  total_len_def dlen_def plen_def opcode_def gcm_decrypt_def nonce_def insert_blk_def
  window_def header_bytes_def steg_receive_def Let_def op_DAT_def

text \<open>C7, as the code has it. Let \<open>recv()\<close> run on a connection \<open>c\<close> of the circuit whose
  module has delivered its bytes, and let the receive loop reach a turn, in state \<open>s2\<close>,
  at which the block at the head of \<open>recv_pending\<close> has an invalid header (check field
  nonzero or sequence number outside the window of 256), or has a valid header, is
  complete and authentic, and has a sequence number whose reassembly slot is occupied.
  Then \<open>recv()\<close> returns -1 to its caller at that turn: the queue is not processed, no
  block is sent (so no RST: the trace of calls and blocks is the one before the call),
  and \<open>send_seq\<close>, the FIN flags, the downstreams, the upstream output and the pending
  upstream input are as before the call. An invalid header leaves \<open>recv_pending\<close> as it
  is; a duplicate block has been taken out of it.\<close>

theorem recv_invalid_or_duplicate_returns_minus_one:
  assumes st: "steg (conns s c) = Some st"
    and turn: "recv_turn k (steg_receive s c st n extracted) c = Some s2"
    and len: "MIN_BLOCK_SIZE \<le> length (recv_pending (conns s2 c))"
    and hdr: "block_header_dec (recv_pending (conns s2 c)) (recv_hdr_crypt s2) = Inr hdr"
    and bad: "\<not> valid hdr (ucast (window (recv_queue s2)))
              \<or> (total_len hdr \<le> length (recv_pending (conns s2 c))
                 \<and> gcm_decrypt (recv_crypt s2)
                      (take (total_len hdr - HEADER_LEN)
                         (drop HEADER_LEN (recv_pending (conns s2 c))))
                      (nonce hdr) = Inr (Some decoded)
                 \<and> evbuffer_ok s2
                 \<and> data (cbuf (recv_queue s2) (ucast (seqno hdr))) \<noteq> None)"
  shows "conn_recv s c (True, n, extracted)
           = Inr (-1, if \<not> valid hdr (ucast (window (recv_queue s2))) then s2
                      else s2\<lparr>conns := (conns s2)
                             (c := (conns s2 c)\<lparr>recv_pending :=
                                     drop (total_len hdr) (recv_pending (conns s2 c))\<rparr>)\<rparr>)
         \<and> trace s2 = trace s \<and> send_seq s2 = send_seq s
         \<and> downstreams s2 = downstreams s \<and> sent_fin s2 = sent_fin s
         \<and> received_fin s2 = received_fin s \<and> up_output s2 = up_output s
         \<and> xmit_pending s2 = xmit_pending s"
proof -
  let ?s1 = "steg_receive s c st n extracted"
  let ?r = "if \<not> valid hdr (ucast (window (recv_queue s2))) then s2
            else s2\<lparr>conns := (conns s2)
                   (c := (conns s2 c)\<lparr>recv_pending :=
                           drop (total_len hdr) (recv_pending (conns s2 c))\<rparr>)\<rparr>"
  from recv_turn_loop[OF turn] have l: "recv_loop ?s1 c = recv_loop s2 c"
    and f: "recv_frame ?s1 s2" by simp_all
  have "recv_block s2 c = Leave (Inr (-1, ?r))"
  proof (cases "valid hdr (ucast (window (recv_queue s2)))")
    case False
    with recv_block_invalid[OF len hdr] show ?thesis by simp
  next
    case True
    with bad recv_block_duplicate[OF len hdr True] show ?thesis by simp
  qed
  then have "recv_loop s2 c = Inr (-1, ?r)" by (subst recv_loop.simps) simp
  with l st have "conn_recv s c (True, n, extracted) = Inr (-1, ?r)"
    unfolding conn_recv_def Let_def by simp
  with f show ?thesis by (simp add: recv_frame_def steg_receive_def)
qed

lemma toy_first_turn:
  "\<exists>s2. recv_turn (Suc 0) (steg_receive toy_circuit 0 (toy_steg 40) 0 (toy_block @ toy_block)) 0
          = Some s2
        \<and> recv_pending (conns s2 0) = toy_block \<and> recv_hdr_crypt s2 = toy_ecb
        \<and> recv_crypt s2 = toy_gcm_dec \<and> evbuffer_ok s2
        \<and> recv_queue s2 = reassembly_queue_new
             \<lparr>cbuf := (cbuf reassembly_queue_new)(0 := \<lparr>data = Some [0x41], op = op_DAT\<rparr>)\<rparr>"
  by (simp add: recv_eval toy_block_def toy_defs const_defs)


lemma toy_block_header:
  "block_header_dec toy_block toy_ecb
     = Inr \<lparr>clear = header_bytes 0 1 0 op_DAT, ciphr = take 16 toy_block\<rparr>"
  by (simp add: recv_eval toy_block_def toy_defs const_defs rep7)

theorem recv_invalid_or_duplicate_witness:
  "\<exists>s'. conn_recv toy_circuit 0 (True, 0, toy_block @ toy_block) = Inr (-1, s')
        \<and> trace s' = [] \<and> recv_pending (conns s' 0) = []
        \<and> data (cbuf (recv_queue s') 0) = Some [0x41]"
proof -
  let ?hdr = "\<lparr>clear = header_bytes 0 1 0 op_DAT, ciphr = take 16 toy_block\<rparr>"
  from toy_first_turn obtain s2 where
    t: "recv_turn (Suc 0) (steg_receive toy_circuit 0 (toy_steg 40) 0 (toy_block @ toy_block)) 0
          = Some s2"
    and p: "recv_pending (conns s2 0) = toy_block" and h: "recv_hdr_crypt s2 = toy_ecb"
    and g: "recv_crypt s2 = toy_gcm_dec" and e: "evbuffer_ok s2"
    and q: "recv_queue s2 = reassembly_queue_new
             \<lparr>cbuf := (cbuf reassembly_queue_new)(0 := \<lparr>data = Some [0x41], op = op_DAT\<rparr>)\<rparr>"
    by blast
  have st: "steg (conns toy_circuit 0) = Some (toy_steg 40)" by (simp add: toy_defs)
  from p have len: "MIN_BLOCK_SIZE \<le> length (recv_pending (conns s2 0))"
    by (simp add: toy_block_def header_bytes_def const_defs)
  from p h toy_block_header
  have hd: "block_header_dec (recv_pending (conns s2 0)) (recv_hdr_crypt s2) = Inr ?hdr"
    by simp
  from q have v: "valid ?hdr (ucast (window (recv_queue s2)))"
    by (simp add: recv_eval toy_defs)
  from p g e q
  have bad: "\<not> valid ?hdr (ucast (window (recv_queue s2)))
              \<or> (total_len ?hdr \<le> length (recv_pending (conns s2 0))
                 \<and> gcm_decrypt (recv_crypt s2)
                      (take (total_len ?hdr - HEADER_LEN)
                         (drop HEADER_LEN (recv_pending (conns s2 0))))
                      (nonce ?hdr) = Inr (Some [0x41])
                 \<and> evbuffer_ok s2
                 \<and> data (cbuf (recv_queue s2) (ucast (seqno ?hdr))) \<noteq> None)"
    by (simp add: recv_eval toy_block_def toy_defs const_defs)
  have tr: "trace toy_circuit = []" by (simp add: toy_defs)
  have tl: "total_len ?hdr = 33" by (simp add: recv_eval const_defs)
  from recv_invalid_or_duplicate_returns_minus_one [OF st t len hd bad] v
  have "conn_recv toy_circuit 0 (True, 0, toy_block @ toy_block)
          = Inr (-1, s2\<lparr>conns := (conns s2)
                             (0 := (conns s2 0)\<lparr>recv_pending :=
                                     drop (total_len ?hdr) (recv_pending (conns s2 0))\<rparr>)\<rparr>)"
    and "trace s2 = trace toy_circuit" by simp_all
  with tr tl p q show ?thesis
    by (simp add: toy_block_def header_bytes_def reassembly_queue_new_def)
qed

text \<open>C7 as stated fails. On the small circuit, 32 zero bytes arriving on connection 0
  decode to a header whose check field is not zero: \<open>recv()\<close> returns -1, nothing has been
  sent and the circuit still has its three downstreams. The same holds when one valid block
  arrives twice: the second copy finds its slot occupied.\<close>

theorem recv_error_sends_no_rst:
  "\<not> valid \<lparr>clear = replicate 16 0x5A, ciphr = replicate 16 0\<rparr>
         (ucast (window (recv_queue toy_circuit)))
   \<and> block_header_dec (replicate 32 0) (recv_hdr_crypt toy_circuit)
       = Inr \<lparr>clear = replicate 16 0x5A, ciphr = replicate 16 0\<rparr>
   \<and> conn_recv toy_circuit 0 (True, 0, replicate 32 0)
       = Inr (-1, steg_receive toy_circuit 0 (toy_steg 40) 0 (replicate 32 0))
   \<and> trace (steg_receive toy_circuit 0 (toy_steg 40) 0 (replicate 32 0)) = []
   \<and> downstreams (steg_receive toy_circuit 0 (toy_steg 40) 0 (replicate 32 0)) = [0, 1, 2]
   \<and> \<not> isl (conn_recv toy_circuit 0 (True, 0, toy_block @ toy_block))
   \<and> fst (projr (conn_recv toy_circuit 0 (True, 0, toy_block @ toy_block))) = -1
   \<and> trace (snd (projr (conn_recv toy_circuit 0 (True, 0, toy_block @ toy_block)))) = []
   \<and> downstreams (snd (projr (conn_recv toy_circuit 0 (True, 0, toy_block @ toy_block))))
       = [0, 1, 2]"
proof -
  have a: "recv_block (steg_receive toy_circuit 0 (toy_steg 40) 0 (replicate 32 0)) 0
             = Leave (Inr (-1, steg_receive toy_circuit 0 (toy_steg 40) 0 (replicate 32 0)))"
    by (simp add: recv_eval toy_defs const_defs)
  have st: "steg (conns toy_circuit 0) = Some (toy_steg 40)" by (simp add: toy_defs)
  from a have l0: "recv_loop (steg_receive toy_circuit 0 (toy_steg 40) 0 (replicate 32 0)) 0
             = Inr (-1, steg_receive toy_circuit 0 (toy_steg 40) 0 (replicate 32 0))"
    by (subst recv_loop.simps) simp
  have b: "conn_recv toy_circuit 0 (True, 0, replicate 32 0)
       = Inr (-1, steg_receive toy_circuit 0 (toy_steg 40) 0 (replicate 32 0))"
    unfolding conn_recv_def Let_def by (simp add: st l0)
  from toy_first_turn obtain s2 where
    t: "recv_turn (Suc 0) (steg_receive toy_circuit 0 (toy_steg 40) 0 (toy_block @ toy_block)) 0
          = Some s2"
    and p: "recv_pending (conns s2 0) = toy_block" and h: "recv_hdr_crypt s2 = toy_ecb"
    and g: "recv_crypt s2 = toy_gcm_dec" and e: "evbuffer_ok s2"
    and q: "recv_queue s2 = reassembly_queue_new
             \<lparr>cbuf := (cbuf reassembly_queue_new)(0 := \<lparr>data = Some [0x41], op = op_DAT\<rparr>)\<rparr>"
    by blast
  from p h g e q have "\<exists>s3. recv_block s2 0 = Leave (Inr (-1, s3)) \<and> recv_frame s2 s3"
    by (simp add: recv_eval toy_block_def toy_defs const_defs recv_frame_def)
  then obtain s3 where r: "recv_block s2 0 = Leave (Inr (-1, s3))" and f3: "recv_frame s2 s3"
    by blast
  from r have "recv_loop s2 0 = Inr (-1, s3)" by (subst recv_loop.simps) simp
  with recv_turn_loop[OF t]
  have l: "recv_loop (steg_receive toy_circuit 0 (toy_steg 40) 0 (toy_block @ toy_block)) 0
             = Inr (-1, s3)"
    and f2: "recv_frame (steg_receive toy_circuit 0 (toy_steg 40) 0 (toy_block @ toy_block)) s2"
    by simp_all
  from l have c: "conn_recv toy_circuit 0 (True, 0, toy_block @ toy_block) = Inr (-1, s3)"
    unfolding conn_recv_def Let_def by (simp add: st)
  from f2 f3 have d: "trace s3 = [] \<and> downstreams s3 = [0, 1, 2]"
    by (simp add: recv_frame_def steg_receive_def toy_defs)
  have v: "\<not> valid \<lparr>clear = replicate 16 0x5A, ciphr = replicate 16 0\<rparr>
         (ucast (window (recv_queue toy_circuit)))
      \<and> block_header_dec (replicate 32 0) (recv_hdr_crypt toy_circuit)
       = Inr \<lparr>clear = replicate 16 0x5A, ciphr = replicate 16 0\<rparr>"
    by (simp add: recv_eval toy_defs const_defs)
  have e0: "trace (steg_receive toy_circuit 0 (toy_steg 40) 0 (replicate 32 0)) = []
      \<and> downstreams (steg_receive toy_circuit 0 (toy_steg 40) 0 (replicate 32 0)) = [0, 1, 2]"
    by (simp add: steg_receive_def toy_defs)
  from v b c d e0 show ?thesis by simp
qed

section \<open>A pass of \<open>send()\<close> with more pending data than the connections have room for\<close>

text \<open>The small circuit with 69 pending upstream bytes: more than its connections, with
  rooms 40 and 100, can take in one block.\<close>

definition toy_backlog :: chop_circuit_t where
  "toy_backlog = toy_circuit\<lparr>xmit_pending := replicate 69 0x41\<rparr>"

text \<open>C6. The claim has \<open>send_targeted(conn, blocksize)\<close> send a block whose data length is
  \<open>min(avail, blocksize - 32, 65535)\<close>, so a block that carries only part of the pending
  data when \<open>blocksize - 32\<close> is the least of the three. The code sends nothing then. On
  the small circuit with 69 pending bytes \<open>pick_connection\<close> finds no connection with room
  for the 101 bytes wanted and returns connection 1 with block size 100; the claim's data
  length is \<open>min(69, 68, 65535) = 68\<close>; \<open>send_targeted(conn, 100)\<close> computes the padding
  length \<open>(100 - 32) - 69\<close> in \<open>size_t\<close>, which wraps around, and the assertion
  \<open>p <= SECTION_LEN\<close> ends the process, in the call and in the pass of \<open>send()\<close> that makes
  it.\<close>

theorem send_below_target_aborts:
  "pick_connection toy_backlog (length (xmit_pending toy_backlog)) = (Some 1, 100)
   \<and> min (length (xmit_pending toy_backlog)) (min (100 - 32) 65535) = 68
   \<and> send_targeted2 toy_backlog 1 100 = Inl Assertion_failure
   \<and> chop_send toy_backlog = Inl Assertion_failure"
proof -
  let ?s0 = "add_event Circuit_disarm_flush_timer toy_backlog"
  have len: "length (xmit_pending toy_backlog) = 69" "length (xmit_pending ?s0) = 69"
    by (simp_all add: toy_backlog_def add_event_def)
  have p: "pick_connection toy_backlog 69 = (Some 1, 100)"
    "pick_connection ?s0 69 = (Some 1, 100)"
    by (simp_all add: pick_connection_def clamp_room_def transmit_room_def add_event_def
        toy_backlog_def toy_defs const_defs)
  have w: "size_sub (size_sub 100 MIN_BLOCK_SIZE) 69 > SECTION_LEN"
    by (simp add: size_sub_def const_defs)
  have a: "send_targeted2 toy_backlog 1 100 = Inl Assertion_failure"
    "send_targeted2 ?s0 1 100 = Inl Assertion_failure"
    unfolding send_targeted2_def Let_def len
    using send_targeted5_assert_p[OF w] by (simp_all add: const_defs)
  have l: "send_loop ?s0 = Inl Assertion_failure"
    using a(2) by (subst send_loop.simps) (simp add: len p)
  have d: "downstreams ?s0 \<noteq> []"
    by (simp add: add_event_def toy_backlog_def toy_defs)
  have c: "chop_send toy_backlog = Inl Assertion_failure"
    unfolding chop_send_def Let_def using d l by simp
  from len p a c show ?thesis by simp
qed

end
